theory Spec2Isabelle
  imports Main
begin

section \<open>Data model\<close>

text \<open>
  The secret push/pull engine of \<^verbatim>\<open>backend/src/controllers/v2/workspaceController.ts\<close>:
  \<^verbatim>\<open>pushSecrets\<close>, \<^verbatim>\<open>pullSecrets\<close>, \<^verbatim>\<open>decryptSecrets\<close> and
  \<^verbatim>\<open>takeSecretSnapshotHelper\<close>.

  Ciphertexts, IVs, tags, hashes, workspace ids, environment slugs and user ids are
  JavaScript strings. An ObjectId is a natural number; the store hands out fresh ones
  from a counter. The visibility constants \<^verbatim>\<open>SECRET_SHARED\<close> and
  \<^verbatim>\<open>SECRET_PERSONAL\<close> are the two values of the source type
  \<^verbatim>\<open>'shared' | 'personal'\<close>.
\<close>

datatype secret_type = SECRET_SHARED | SECRET_PERSONAL

text \<open>The interface \<^verbatim>\<open>PushSecret\<close>; its field \<^verbatim>\<open>type\<close> is \<open>ptype\<close> here.\<close>

record PushSecret =
  ciphertextKey :: string
  ivKey :: string
  tagKey :: string
  hashKey :: string
  ciphertextValue :: string
  ivValue :: string
  tagValue :: string
  hashValue :: string
  ptype :: secret_type

text \<open>
  Modelled from the spec: the mongoose models \<^verbatim>\<open>Secret\<close>, \<^verbatim>\<open>SecretVersion\<close> and
  \<^verbatim>\<open>SecretSnapshot\<close> are imported from \<^verbatim>\<open>../models\<close>, which is not among the
  sources. Their fields are the ones the controller reads and writes; a new Secret
  starts at version 1 (the default of the schema), the owner is present only on a
  record that was stamped with one, and a snapshot embeds a copy of the Secret records.

  \<open>SecretDoc\<close> is the object handed to \<^verbatim>\<open>Secret.insertMany\<close>; a stored \<open>Secret\<close>
  has in addition its \<^verbatim>\<open>_id\<close> (\<open>secretId\<close>) and its \<open>version\<close>.
\<close>

record SecretDoc =
  workspace :: string
  type :: secret_type
  environment :: string
  user :: "string option"
  secretKeyCiphertext :: string
  secretKeyIV :: string
  secretKeyTag :: string
  secretKeyHash :: string
  secretValueCiphertext :: string
  secretValueIV :: string
  secretValueTag :: string
  secretValueHash :: string

record Secret = SecretDoc +
  secretId :: nat
  version :: nat

record SecretVersion =
  sv_secret :: nat
  sv_version :: nat
  sv_isDeleted :: bool
  sv_secretKeyCiphertext :: string
  sv_secretKeyIV :: string
  sv_secretKeyTag :: string
  sv_secretKeyHash :: string
  sv_secretValueCiphertext :: string
  sv_secretValueIV :: string
  sv_secretValueTag :: string
  sv_secretValueHash :: string

record SecretSnapshot =
  snap_workspace :: string
  snap_version :: nat
  snap_secrets :: "Secret list"

text \<open>
  The three collections, each in insertion order, and the next fresh ObjectId.
\<close>

record db =
  Secrets :: "Secret list"
  SecretVersions :: "SecretVersion list"
  SecretSnapshots :: "SecretSnapshot list"
  nextId :: nat

definition emptyDb :: db where
  "emptyDb = \<lparr>Secrets = [], SecretVersions = [], SecretSnapshots = [], nextId = 0\<rparr>"

section \<open>Errors and store calls\<close>

text \<open>
  Every \<^verbatim>\<open>await\<close> on the store can reject. Each call site of the controller occurs
  once per call of its function, so which store calls reject during one call is a
  predicate on call sites.
\<close>

datatype call_site =
    PullFindShared | PullFindPersonal
  | PushDeleteMany | PushMarkDeleted | PushBulkWrite | PushInsertUpdatedVersions
  | PushInsertSecrets | PushInsertAddedVersions
  | SnapshotFindSecrets | SnapshotFindLatest | SnapshotSave

datatype error = StoreError call_site | ValidationError | TypeError | DecryptError | Error string

type_synonym faults = "call_site \<Rightarrow> bool"

definition noFaults :: faults where
  "noFaults = (\<lambda>c. False)"

type_synonym 'a action = "db \<Rightarrow> (error + 'a) \<times> db"

definition return :: "'a \<Rightarrow> 'a action" where
  "return a = (\<lambda>d. (Inr a, d))"

definition throw :: "error \<Rightarrow> 'a action" where
  "throw e = (\<lambda>d. (Inl e, d))"

text \<open>\<^verbatim>\<open>const a = await m; k(a)\<close>: a rejection of \<open>m\<close> skips \<open>k\<close>; writes that landed stay.\<close>

definition andThen :: "'a action \<Rightarrow> ('a \<Rightarrow> 'b action) \<Rightarrow> 'b action" where
  "andThen m k = (\<lambda>d. case m d of (Inl e, d') \<Rightarrow> (Inl e, d') | (Inr a, d') \<Rightarrow> k a d')"

text \<open>\<^verbatim>\<open>try { m } catch (err) { throw new Error(msg) }\<close>\<close>

definition tryCatch :: "string \<Rightarrow> 'a action \<Rightarrow> 'a action" where
  "tryCatch msg m = (\<lambda>d. case m d of (Inl e, d') \<Rightarrow> (Inl (Error msg), d') | (Inr a, d') \<Rightarrow> (Inr a, d'))"

definition storeCall :: "faults \<Rightarrow> call_site \<Rightarrow> (db \<Rightarrow> 'a \<times> db) \<Rightarrow> 'a action" where
  "storeCall f c op = (\<lambda>d. if f c then (Inl (StoreError c), d)
                            else (case op d of (a, d') \<Rightarrow> (Inr a, d')))"

text \<open>A store call that the store itself may refuse, with nothing written.\<close>

definition storeAction :: "faults \<Rightarrow> call_site \<Rightarrow> 'a action \<Rightarrow> 'a action" where
  "storeAction f c act = (\<lambda>d. if f c then (Inl (StoreError c), d) else act d)"

text \<open>\<^verbatim>\<open>xs.map(g)\<close> where \<open>g\<close> may throw: the first throw ends the map.\<close>

fun mapThrowing :: "('a \<Rightarrow> error + 'b) \<Rightarrow> 'a list \<Rightarrow> error + 'b list" where
  "mapThrowing g [] = Inr []"
| "mapThrowing g (x # xs) =
     (case g x of
        Inl e \<Rightarrow> Inl e
      | Inr y \<Rightarrow> (case mapThrowing g xs of Inl e \<Rightarrow> Inl e | Inr ys \<Rightarrow> Inr (y # ys)))"

section \<open>The store operations the controller calls\<close>

text \<open>\<^verbatim>\<open>Secret.find(filter)\<close>: the matching documents, in store order.\<close>

definition Secret_find :: "(Secret \<Rightarrow> bool) \<Rightarrow> db \<Rightarrow> Secret list \<times> db" where
  "Secret_find matches d = (filter matches (Secrets d), d)"

text \<open>\<^verbatim>\<open>Secret.deleteMany({ _id: { $in: ids } })\<close>\<close>

definition Secret_deleteMany :: "nat list \<Rightarrow> db \<Rightarrow> unit \<times> db" where
  "Secret_deleteMany ids d =
     ((), d\<lparr>Secrets := filter (\<lambda>s. secretId s \<notin> set ids) (Secrets d)\<rparr>)"

text \<open>\<^verbatim>\<open>SecretVersion.updateMany({ secret: { $in: ids } }, { isDeleted: true })\<close>\<close>

definition SecretVersion_markDeleted :: "nat list \<Rightarrow> db \<Rightarrow> unit \<times> db" where
  "SecretVersion_markDeleted ids d =
     ((), d\<lparr>SecretVersions :=
              map (\<lambda>v. if sv_secret v \<in> set ids then v\<lparr>sv_isDeleted := True\<rparr> else v)
                  (SecretVersions d)\<rparr>)"

text \<open>
  The update document of the source: four value fields to set, \<^verbatim>\<open>$inc: { version: 1 }\<close>,
  and \<^verbatim>\<open>user\<close> only when it was attached.
\<close>

record Update =
  set_secretValueCiphertext :: string
  set_secretValueIV :: string
  set_secretValueTag :: string
  set_secretValueHash :: string
  inc_version :: nat
  set_user :: "string option"

record UpdateOne =
  filter_workspace :: string
  filter_id :: "nat option"
  update :: Update

definition applyUpdate :: "Update \<Rightarrow> Secret \<Rightarrow> Secret" where
  "applyUpdate u s =
     s\<lparr>secretValueCiphertext := set_secretValueCiphertext u,
       secretValueIV := set_secretValueIV u,
       secretValueTag := set_secretValueTag u,
       secretValueHash := set_secretValueHash u,
       version := version s + inc_version u,
       user := (case set_user u of None \<Rightarrow> user s | Some w \<Rightarrow> Some w)\<rparr>"

text \<open>
  The filter \<^verbatim>\<open>{ workspace, _id }\<close>. Every stored document has an \<^verbatim>\<open>_id\<close>, so a filter
  whose \<^verbatim>\<open>_id\<close> is \<^verbatim>\<open>undefined\<close> (\<open>None\<close>) matches no document.
\<close>

definition matchesFilter :: "UpdateOne \<Rightarrow> Secret \<Rightarrow> bool" where
  "matchesFilter op s \<longleftrightarrow> workspace s = filter_workspace op \<and> filter_id op = Some (secretId s)"

text \<open>\<^verbatim>\<open>updateOne\<close>: the first document that matches the filter is updated, if any.\<close>

fun updateOne :: "UpdateOne \<Rightarrow> Secret list \<Rightarrow> Secret list" where
  "updateOne op [] = []"
| "updateOne op (s # ss) =
     (if matchesFilter op s then applyUpdate (update op) s # ss else s # updateOne op ss)"

text \<open>\<^verbatim>\<open>Secret.bulkWrite(operations)\<close>: the operations run in order; an empty list writes nothing.\<close>

definition Secret_bulkWrite :: "UpdateOne list \<Rightarrow> db \<Rightarrow> unit \<times> db" where
  "Secret_bulkWrite ops d = ((), d\<lparr>Secrets := fold updateOne ops (Secrets d)\<rparr>)"

text \<open>
  The object handed to \<^verbatim>\<open>SecretVersion.insertMany\<close>. Its \<^verbatim>\<open>secret\<close> is \<^verbatim>\<open>undefined\<close>
  and its \<^verbatim>\<open>version\<close> is \<^verbatim>\<open>NaN\<close> (both \<open>None\<close>) when the controller read them from
  an object that has no such fields.
\<close>

record SecretVersionDoc =
  svd_secret :: "nat option"
  svd_version :: "nat option"
  svd_isDeleted :: bool
  svd_secretKeyCiphertext :: string
  svd_secretKeyIV :: string
  svd_secretKeyTag :: string
  svd_secretKeyHash :: string
  svd_secretValueCiphertext :: string
  svd_secretValueIV :: string
  svd_secretValueTag :: string
  svd_secretValueHash :: string

text \<open>
  Modelled from the spec: the schema of \<^verbatim>\<open>SecretVersion\<close> is not among the sources. The
  spec gives every version row a reference to its owning Secret (the rows are
  foreign-keyed to a Secret) and a version number; a document that lacks one of them is
  not a version row and does not pass the validation of the schema.
\<close>

definition storedVersion :: "nat \<Rightarrow> nat \<Rightarrow> SecretVersionDoc \<Rightarrow> SecretVersion" where
  "storedVersion i n doc =
     \<lparr>sv_secret = i, sv_version = n, sv_isDeleted = svd_isDeleted doc,
      sv_secretKeyCiphertext = svd_secretKeyCiphertext doc,
      sv_secretKeyIV = svd_secretKeyIV doc,
      sv_secretKeyTag = svd_secretKeyTag doc,
      sv_secretKeyHash = svd_secretKeyHash doc,
      sv_secretValueCiphertext = svd_secretValueCiphertext doc,
      sv_secretValueIV = svd_secretValueIV doc,
      sv_secretValueTag = svd_secretValueTag doc,
      sv_secretValueHash = svd_secretValueHash doc\<rparr>"

definition validated :: "SecretVersionDoc \<Rightarrow> SecretVersion option" where
  "validated doc =
     (case svd_secret doc of
        None \<Rightarrow> None
      | Some i \<Rightarrow>
     (case svd_version doc of
        None \<Rightarrow> None
      | Some n \<Rightarrow> Some (storedVersion i n doc)))"

text \<open>
  \<^verbatim>\<open>SecretVersion.insertMany(docs)\<close>: all documents are validated first; when one fails,
  the call rejects and nothing is inserted.
\<close>

definition SecretVersion_insertMany :: "SecretVersionDoc list \<Rightarrow> unit action" where
  "SecretVersion_insertMany docs d =
     (case those (map validated docs) of
        None \<Rightarrow> (Inl ValidationError, d)
      | Some rows \<Rightarrow> (Inr (), d\<lparr>SecretVersions := SecretVersions d @ rows\<rparr>))"

text \<open>
  \<^verbatim>\<open>Secret.insertMany(docs)\<close>: every document gets a fresh \<^verbatim>\<open>_id\<close> and version 1;
  the stored documents are returned in the order of \<open>docs\<close>.
\<close>

definition stored :: "nat \<Rightarrow> SecretDoc \<Rightarrow> Secret" where
  "stored i doc =
     \<lparr>workspace = workspace doc, type = type doc, environment = environment doc,
      user = user doc,
      secretKeyCiphertext = secretKeyCiphertext doc, secretKeyIV = secretKeyIV doc,
      secretKeyTag = secretKeyTag doc, secretKeyHash = secretKeyHash doc,
      secretValueCiphertext = secretValueCiphertext doc, secretValueIV = secretValueIV doc,
      secretValueTag = secretValueTag doc, secretValueHash = secretValueHash doc,
      secretId = i, version = 1\<rparr>"

definition Secret_insertMany :: "SecretDoc list \<Rightarrow> db \<Rightarrow> Secret list \<times> db" where
  "Secret_insertMany docs d =
     (let newSecrets = map (\<lambda>(i, doc). stored i doc)
                           (zip [nextId d ..< nextId d + length docs] docs)
      in (newSecrets, d\<lparr>Secrets := Secrets d @ newSecrets, nextId := nextId d + length docs\<rparr>))"

text \<open>
  \<^verbatim>\<open>SecretSnapshot.findOne({ workspace }).sort({ version: -1 })\<close>: a snapshot of the
  workspace with the greatest version, none when the workspace has no snapshot.
\<close>

definition SecretSnapshot_findLatest :: "string \<Rightarrow> db \<Rightarrow> SecretSnapshot option \<times> db" where
  "SecretSnapshot_findLatest workspaceId d =
     ((case filter (\<lambda>p. snap_workspace p = workspaceId) (SecretSnapshots d) of
         [] \<Rightarrow> None
       | p # ps \<Rightarrow> Some (fold (\<lambda>q best. if snap_version best < snap_version q then q else best) ps p)),
      d)"

text \<open>\<^verbatim>\<open>new SecretSnapshot(doc).save()\<close>\<close>

definition SecretSnapshot_save :: "SecretSnapshot \<Rightarrow> db \<Rightarrow> unit \<times> db" where
  "SecretSnapshot_save p d = ((), d\<lparr>SecretSnapshots := SecretSnapshots d @ [p]\<rparr>)"

section \<open>pullSecrets\<close>

definition pullSecrets :: "faults \<Rightarrow> string \<Rightarrow> string \<Rightarrow> string \<Rightarrow> Secret list action" where
  "pullSecrets f userId workspaceId env =
     tryCatch ''Failed to pull shared and personal secrets''
       (andThen (storeCall f PullFindShared
                   (Secret_find (\<lambda>s. workspace s = workspaceId \<and> environment s = env
                                     \<and> type s = SECRET_SHARED)))
          (\<lambda>sharedSecrets.
        andThen (storeCall f PullFindPersonal
                   (Secret_find (\<lambda>s. workspace s = workspaceId \<and> environment s = env
                                     \<and> type s = SECRET_PERSONAL \<and> user s = Some userId)))
          (\<lambda>personalSecrets.
        return (personalSecrets @ sharedSecrets))))"

section \<open>takeSecretSnapshotHelper\<close>

definition takeSecretSnapshotHelper :: "faults \<Rightarrow> string \<Rightarrow> unit action" where
  "takeSecretSnapshotHelper f workspaceId =
     tryCatch ''Failed to take a secret snapshot''
       (andThen (storeCall f SnapshotFindSecrets (Secret_find (\<lambda>s. workspace s = workspaceId)))
          (\<lambda>secrets.
        andThen (storeCall f SnapshotFindLatest (SecretSnapshot_findLatest workspaceId))
          (\<lambda>latestSecretSnapshot.
        case latestSecretSnapshot of
          None \<Rightarrow>
            storeCall f SnapshotSave
              (SecretSnapshot_save
                 \<lparr>snap_workspace = workspaceId, snap_version = 1, snap_secrets = secrets\<rparr>)
        | Some latest \<Rightarrow>
            storeCall f SnapshotSave
              (SecretSnapshot_save
                 \<lparr>snap_workspace = workspaceId, snap_version = snap_version latest + 1,
                  snap_secrets = secrets\<rparr>))))"

section \<open>pushSecrets\<close>

text \<open>
  \<^verbatim>\<open>xs.reduce((acc, s) => ({ ...acc, [key(s)]: s }), {})\<close>: an object whose own
  properties map each key to the last element with that key (a computed key and the
  spread define own properties, also for the name \<^verbatim>\<open>__proto__\<close>). The object is made by
  an object literal, so it inherits the properties of \<^verbatim>\<open>Object.prototype\<close>.
\<close>

definition indexBy :: "('a \<Rightarrow> string) \<Rightarrow> 'a list \<Rightarrow> (string \<rightharpoonup> 'a)" where
  "indexBy key xs = fold (\<lambda>s accumulator. accumulator(key s \<mapsto> s)) xs Map.empty"

text \<open>The property names of \<^verbatim>\<open>Object.prototype\<close>.\<close>

definition objectPrototypeKeys :: "string list" where
  "objectPrototypeKeys =
     [''constructor'', ''__defineGetter__'', ''__defineSetter__'', ''hasOwnProperty'',
      ''__lookupGetter__'', ''__lookupSetter__'', ''isPrototypeOf'', ''propertyIsEnumerable'',
      ''toString'', ''valueOf'', ''__proto__'', ''toLocaleString'']"

text \<open>\<^verbatim>\<open>k in obj\<close>: an own property, or one found on the prototype.\<close>

definition isIn :: "string \<Rightarrow> (string \<rightharpoonup> 'a) \<Rightarrow> bool" where
  "isIn k obj \<longleftrightarrow> obj k \<noteq> None \<or> k \<in> set objectPrototypeKeys"

text \<open>
  \<^verbatim>\<open>obj[k]\<close>: the own property when there is one; else, for a name of
  \<^verbatim>\<open>Object.prototype\<close>, the inherited function or object, on which every field the
  controller reads (\<^verbatim>\<open>secretValueHash\<close>, \<^verbatim>\<open>type\<close>, \<^verbatim>\<open>_id\<close>, \<^verbatim>\<open>version\<close>) is
  \<^verbatim>\<open>undefined\<close>; else \<^verbatim>\<open>undefined\<close>, on which reading a field throws.
\<close>

datatype 'a property = Own 'a | Inherited | Undefined

definition getProp :: "(string \<rightharpoonup> 'a) \<Rightarrow> string \<Rightarrow> 'a property" where
  "getProp obj k =
     (case obj k of
        Some v \<Rightarrow> Own v
      | None \<Rightarrow> if k \<in> set objectPrototypeKeys then Inherited else Undefined)"

definition oldSecretsObj :: "Secret list \<Rightarrow> (string \<rightharpoonup> Secret)" where
  "oldSecretsObj oldSecrets = indexBy secretKeyHash oldSecrets"

definition newSecretsObj :: "PushSecret list \<Rightarrow> (string \<rightharpoonup> PushSecret)" where
  "newSecretsObj secrets = indexBy hashKey secrets"

definition toDelete :: "Secret list \<Rightarrow> PushSecret list \<Rightarrow> nat list" where
  "toDelete oldSecrets secrets =
     map secretId (filter (\<lambda>s. \<not> isIn (secretKeyHash s) (newSecretsObj secrets)) oldSecrets)"

text \<open>
  Lines 839 to 854. For an inherited property the value hash of the entry, a string, is
  compared with \<^verbatim>\<open>undefined\<close> and differs. Inside the test \<^verbatim>\<open>in\<close> the property is
  never \<^verbatim>\<open>undefined\<close>.
\<close>

definition toUpdate :: "Secret list \<Rightarrow> PushSecret list \<Rightarrow> PushSecret list" where
  "toUpdate oldSecrets secrets =
     filter (\<lambda>s. if isIn (hashKey s) (oldSecretsObj oldSecrets)
                 then (case getProp (oldSecretsObj oldSecrets) (hashKey s) of
                         Own old \<Rightarrow>
                           if hashValue s \<noteq> secretValueHash old then True
                           else if ptype s \<noteq> type old then True
                           else False
                       | Inherited \<Rightarrow> True
                       | Undefined \<Rightarrow> False)
                 else False)
            secrets"

definition toAdd :: "Secret list \<Rightarrow> PushSecret list \<Rightarrow> PushSecret list" where
  "toAdd oldSecrets secrets =
     filter (\<lambda>s. \<not> isIn (hashKey s) (oldSecretsObj oldSecrets)) secrets"

text \<open>Lines 818 to 836: handle deleting secrets.\<close>

definition handleDeleting :: "faults \<Rightarrow> nat list \<Rightarrow> unit action" where
  "handleDeleting f ids =
     (if length ids > 0
      then andThen (storeCall f PushDeleteMany (Secret_deleteMany ids))
             (\<lambda>_. storeCall f PushMarkDeleted (SecretVersion_markDeleted ids))
      else return ())"

text \<open>Lines 858 to 871: the update document built for an entry of \<^verbatim>\<open>toUpdate\<close>.\<close>

definition updateDoc :: "string \<Rightarrow> PushSecret \<Rightarrow> Update" where
  "updateDoc userId s =
     \<lparr>set_secretValueCiphertext = ciphertextValue s,
      set_secretValueIV = ivValue s,
      set_secretValueTag = tagValue s,
      set_secretValueHash = hashValue s,
      inc_version = 1,
      set_user = (if ptype s = SECRET_PERSONAL then Some userId else None)\<rparr>"

text \<open>
  Lines 873 to 881: the \<^verbatim>\<open>updateOne\<close> operation, addressed to the \<^verbatim>\<open>_id\<close> read from
  \<^verbatim>\<open>oldSecretsObj[s.hashKey]\<close>.
\<close>

definition updateOneFor :: "string \<Rightarrow> string \<Rightarrow> Secret \<Rightarrow> PushSecret \<Rightarrow> UpdateOne" where
  "updateOneFor userId workspaceId old s =
     \<lparr>filter_workspace = workspaceId, filter_id = Some (secretId old),
      update = updateDoc userId s\<rparr>"

definition updateNobody :: "string \<Rightarrow> string \<Rightarrow> PushSecret \<Rightarrow> UpdateOne" where
  "updateNobody userId workspaceId s =
     \<lparr>filter_workspace = workspaceId, filter_id = None, update = updateDoc userId s\<rparr>"

definition operation :: "string \<Rightarrow> string \<Rightarrow> (string \<rightharpoonup> Secret) \<Rightarrow> PushSecret \<Rightarrow> error + UpdateOne" where
  "operation userId workspaceId obj s =
     (case getProp obj (hashKey s) of
        Own old \<Rightarrow> Inr (updateOneFor userId workspaceId old s)
      | Inherited \<Rightarrow> Inr (updateNobody userId workspaceId s)
      | Undefined \<Rightarrow> Inl TypeError)"

text \<open>
  Lines 885 to 906: the version row of an updated secret; \<^verbatim>\<open>undefined + 1\<close> is
  \<^verbatim>\<open>NaN\<close>.
\<close>

definition updatedRow :: "Secret \<Rightarrow> PushSecret \<Rightarrow> SecretVersionDoc" where
  "updatedRow old s =
     \<lparr>svd_secret = Some (secretId old),
      svd_version = Some (version old + 1),
      svd_isDeleted = False,
      svd_secretKeyCiphertext = ciphertextKey s,
      svd_secretKeyIV = ivKey s,
      svd_secretKeyTag = tagKey s,
      svd_secretKeyHash = hashKey s,
      svd_secretValueCiphertext = ciphertextValue s,
      svd_secretValueIV = ivValue s,
      svd_secretValueTag = tagValue s,
      svd_secretValueHash = hashValue s\<rparr>"

definition rowOfNobody :: "PushSecret \<Rightarrow> SecretVersionDoc" where
  "rowOfNobody s =
     \<lparr>svd_secret = None,
      svd_version = None,
      svd_isDeleted = False,
      svd_secretKeyCiphertext = ciphertextKey s,
      svd_secretKeyIV = ivKey s,
      svd_secretKeyTag = tagKey s,
      svd_secretKeyHash = hashKey s,
      svd_secretValueCiphertext = ciphertextValue s,
      svd_secretValueIV = ivValue s,
      svd_secretValueTag = tagValue s,
      svd_secretValueHash = hashValue s\<rparr>"

definition updatedVersion :: "(string \<rightharpoonup> Secret) \<Rightarrow> PushSecret \<Rightarrow> error + SecretVersionDoc" where
  "updatedVersion obj s =
     (case getProp obj (hashKey s) of
        Own old \<Rightarrow> Inr (updatedRow old s)
      | Inherited \<Rightarrow> Inr (rowOfNobody s)
      | Undefined \<Rightarrow> Inl TypeError)"

text \<open>Lines 838 to 907: handle modifying secrets where type or value changed.\<close>

definition handleModifying ::
  "faults \<Rightarrow> string \<Rightarrow> string \<Rightarrow> (string \<rightharpoonup> Secret) \<Rightarrow> PushSecret list \<Rightarrow> unit action" where
  "handleModifying f userId workspaceId obj updates =
     (case mapThrowing (operation userId workspaceId obj) updates of
        Inl e \<Rightarrow> throw e
      | Inr operations \<Rightarrow>
          andThen (storeCall f PushBulkWrite (Secret_bulkWrite operations))
            (\<lambda>_. case mapThrowing (updatedVersion obj) updates of
                    Inl e \<Rightarrow> throw e
                  | Inr rows \<Rightarrow>
                      storeAction f PushInsertUpdatedVersions (SecretVersion_insertMany rows)))"

text \<open>Lines 915 to 935: the document inserted for an entry of \<^verbatim>\<open>toAdd\<close>.\<close>

definition newDoc :: "string \<Rightarrow> string \<Rightarrow> string \<Rightarrow> PushSecret \<Rightarrow> SecretDoc" where
  "newDoc userId workspaceId env s =
     \<lparr>workspace = workspaceId, type = ptype s, environment = env,
      user = (if ptype s = SECRET_PERSONAL then Some userId else None),
      secretKeyCiphertext = ciphertextKey s, secretKeyIV = ivKey s,
      secretKeyTag = tagKey s, secretKeyHash = hashKey s,
      secretValueCiphertext = ciphertextValue s, secretValueIV = ivValue s,
      secretValueTag = tagValue s, secretValueHash = hashValue s\<rparr>"

text \<open>Lines 939 to 961: the first version row of an inserted secret.\<close>

definition addedVersion :: "Secret \<Rightarrow> SecretVersionDoc" where
  "addedVersion s =
     \<lparr>svd_secret = Some (secretId s),
      svd_version = Some 1,
      svd_isDeleted = False,
      svd_secretKeyCiphertext = secretKeyCiphertext s,
      svd_secretKeyIV = secretKeyIV s,
      svd_secretKeyTag = secretKeyTag s,
      svd_secretKeyHash = secretKeyHash s,
      svd_secretValueCiphertext = secretValueCiphertext s,
      svd_secretValueIV = secretValueIV s,
      svd_secretValueTag = secretValueTag s,
      svd_secretValueHash = secretValueHash s\<rparr>"

text \<open>Lines 909 to 963: handle adding new secrets.\<close>

definition handleAdding :: "faults \<Rightarrow> string \<Rightarrow> string \<Rightarrow> string \<Rightarrow> PushSecret list \<Rightarrow> unit action" where
  "handleAdding f userId workspaceId env adds =
     (if length adds > 0
      then andThen (storeCall f PushInsertSecrets
                      (Secret_insertMany (map (newDoc userId workspaceId env) adds)))
             (\<lambda>newSecrets.
                storeAction f PushInsertAddedVersions
                  (SecretVersion_insertMany (map addedVersion newSecrets)))
      else return ())"

definition pushSecrets ::
  "faults \<Rightarrow> string \<Rightarrow> string \<Rightarrow> string \<Rightarrow> PushSecret list \<Rightarrow> unit action" where
  "pushSecrets f userId workspaceId env secrets =
     tryCatch ''Failed to push shared and personal secrets''
       (andThen (pullSecrets f userId workspaceId env)
          (\<lambda>oldSecrets.
        andThen (handleDeleting f (toDelete oldSecrets secrets))
          (\<lambda>_.
        andThen (handleModifying f userId workspaceId (oldSecretsObj oldSecrets)
                   (toUpdate oldSecrets secrets))
          (\<lambda>_.
        andThen (handleAdding f userId workspaceId env (toAdd oldSecrets secrets))
          (\<lambda>_.
        takeSecretSnapshotHelper f workspaceId)))))"

section \<open>decryptSecrets\<close>

text \<open>
  \<^verbatim>\<open>decryptSymmetric\<close> comes from \<^verbatim>\<open>../utils/crypto\<close>, which is not among the
  sources: it is a parameter \<open>dec ciphertext iv tag key\<close> that returns the plaintext or
  throws.
\<close>

datatype DecryptSecretType = FormatText | FormatObject | FormatExpanded

record ExpandedSecret = PushSecret +
  plaintextKey :: string
  plaintextValue :: string

text \<open>
  The content: a string, or an object given by its own properties. An assignment
  \<^verbatim>\<open>content['__proto__'] = v\<close> reaches the setter of \<^verbatim>\<open>Object.prototype\<close> and defines no
  own property: the setter ignores a string and makes an object the prototype of the
  content. The second component of \<open>ContentExpanded\<close> is that prototype, \<open>None\<close> for
  \<^verbatim>\<open>Object.prototype\<close> itself.
\<close>

datatype Content =
    ContentText string
  | ContentObject "string \<rightharpoonup> string"
  | ContentExpanded "string \<rightharpoonup> ExpandedSecret" "ExpandedSecret option"

type_synonym decryptSymmetric = "string \<Rightarrow> string \<Rightarrow> string \<Rightarrow> string \<Rightarrow> error + string"

definition newline :: string where
  "newline = [CHR 0x0A]"

definition expand :: "PushSecret \<Rightarrow> string \<Rightarrow> string \<Rightarrow> ExpandedSecret" where
  "expand s k v =
     \<lparr>ciphertextKey = ciphertextKey s, ivKey = ivKey s, tagKey = tagKey s, hashKey = hashKey s,
      ciphertextValue = ciphertextValue s, ivValue = ivValue s, tagValue = tagValue s,
      hashValue = hashValue s, ptype = ptype s, plaintextKey = k, plaintextValue = v\<rparr>"

text \<open>
  The body of the \<^verbatim>\<open>forEach\<close> callback at index \<open>idx\<close> of an array of \<open>len\<close> secrets:
  both decryptions, then the \<^verbatim>\<open>switch\<close> on the format. \<open>content\<close> has the shape the
  format gave it before the loop; the other shapes do not occur.
\<close>

definition decryptOne ::
  "decryptSymmetric \<Rightarrow> string \<Rightarrow> DecryptSecretType \<Rightarrow> nat \<Rightarrow> nat \<Rightarrow> PushSecret \<Rightarrow> Content
     \<Rightarrow> error + Content" where
  "decryptOne dec key format len idx s content =
     (case dec (ciphertextKey s) (ivKey s) (tagKey s) key of
        Inl e \<Rightarrow> Inl e
      | Inr secretKey \<Rightarrow>
     (case dec (ciphertextValue s) (ivValue s) (tagValue s) key of
        Inl e \<Rightarrow> Inl e
      | Inr secretValue \<Rightarrow>
     (case format of
        FormatText \<Rightarrow>
          (case content of
             ContentText c \<Rightarrow>
               (let c1 = c @ secretKey; c2 = c1 @ ''=''; c3 = c2 @ secretValue
                in Inr (ContentText (if idx < len then c3 @ newline else c3)))
           | _ \<Rightarrow> Inl TypeError)
      | FormatObject \<Rightarrow>
          (case content of
             ContentObject obj \<Rightarrow>
               Inr (ContentObject (if secretKey = ''__proto__'' then obj
                                   else obj(secretKey \<mapsto> secretValue)))
           | _ \<Rightarrow> Inl TypeError)
      | FormatExpanded \<Rightarrow>
          (case content of
             ContentExpanded obj proto \<Rightarrow>
               Inr (if secretKey = ''__proto__''
                    then ContentExpanded obj (Some (expand s secretKey secretValue))
                    else ContentExpanded (obj(secretKey \<mapsto> expand s secretKey secretValue)) proto)
           | _ \<Rightarrow> Inl TypeError))))"

fun forEachSecret ::
  "decryptSymmetric \<Rightarrow> string \<Rightarrow> DecryptSecretType \<Rightarrow> nat \<Rightarrow> nat \<Rightarrow> PushSecret list
     \<Rightarrow> Content \<Rightarrow> error + Content" where
  "forEachSecret dec key format len idx [] content = Inr content"
| "forEachSecret dec key format len idx (s # ss) content =
     (case decryptOne dec key format len idx s content of
        Inl e \<Rightarrow> Inl e
      | Inr content' \<Rightarrow> forEachSecret dec key format len (Suc idx) ss content')"

definition decryptSecrets ::
  "decryptSymmetric \<Rightarrow> PushSecret list \<Rightarrow> string \<Rightarrow> DecryptSecretType \<Rightarrow> error + Content" where
  "decryptSecrets dec secrets key format =
     forEachSecret dec key format (length secrets) 0 secrets
       (case format of
          FormatText \<Rightarrow> ContentText []
        | FormatObject \<Rightarrow> ContentObject Map.empty
        | FormatExpanded \<Rightarrow> ContentExpanded Map.empty None)"

section \<open>Notions used in the statements\<close>

text \<open>What \<^verbatim>\<open>pullSecrets\<close> reads: the caller's personal secrets, then the shared ones.\<close>

definition visible :: "string \<Rightarrow> string \<Rightarrow> string \<Rightarrow> db \<Rightarrow> Secret list" where
  "visible userId workspaceId env d =
     filter (\<lambda>s. workspace s = workspaceId \<and> environment s = env \<and> type s = SECRET_PERSONAL
                  \<and> user s = Some userId) (Secrets d)
     @ filter (\<lambda>s. workspace s = workspaceId \<and> environment s = env \<and> type s = SECRET_SHARED)
         (Secrets d)"

text \<open>The stored record an incoming entry is compared with: the last one with its key hash.\<close>

definition storedFor :: "Secret list \<Rightarrow> PushSecret \<Rightarrow> Secret" where
  "storedFor oldSecrets s = last (filter (\<lambda>old. secretKeyHash old = hashKey s) oldSecrets)"


text \<open>The versions of the snapshots of one workspace, in the order they were written.\<close>

definition snapshotVersions :: "string \<Rightarrow> db \<Rightarrow> nat list" where
  "snapshotVersions workspaceId d =
     map snap_version (filter (\<lambda>p. snap_workspace p = workspaceId) (SecretSnapshots d))"

text \<open>ObjectIds are unique, and the ones in use were handed out by the store.\<close>

definition wfIds :: "db \<Rightarrow> bool" where
  "wfIds d \<longleftrightarrow> distinct (map secretId (Secrets d))
              \<and> (\<forall>s \<in> set (Secrets d). secretId s < nextId d)"


text \<open>
  The snapshot that \<^verbatim>\<open>takeSecretSnapshotHelper\<close> is to write: version 1 for a
  workspace without snapshots, else the greatest version plus 1, with the Secret rows of
  the workspace.
\<close>

definition expectedSnapshot :: "string \<Rightarrow> db \<Rightarrow> SecretSnapshot" where
  "expectedSnapshot workspaceId d =
     \<lparr>snap_workspace = workspaceId,
      snap_version = (if snapshotVersions workspaceId d = [] then 1
                      else Max (set (snapshotVersions workspaceId d)) + 1),
      snap_secrets = filter (\<lambda>s. workspace s = workspaceId) (Secrets d)\<rparr>"

text \<open>
  The logical identity of a Secret: workspace, environment, owner scope (shared, or the
  personal secrets of one user) and key hash.
\<close>

definition scopedKey :: "Secret \<Rightarrow> string \<times> string \<times> secret_type \<times> string option \<times> string" where
  "scopedKey s =
     (workspace s, environment s, type s,
      (if type s = SECRET_PERSONAL then user s else None), secretKeyHash s)"

definition uniqueKeys :: "db \<Rightarrow> bool" where
  "uniqueKeys d \<longleftrightarrow> distinct (map scopedKey (Secrets d))"

text \<open>The stores a single writer reaches from the empty one, one call after the other.\<close>

inductive reachable :: "db \<Rightarrow> bool" where
  reachable_empty: "reachable emptyDb"
| reachable_push:
    "reachable d \<Longrightarrow> pushSecrets f userId workspaceId env secrets d = (r, d') \<Longrightarrow> reachable d'"
| reachable_snapshot:
    "reachable d \<Longrightarrow> takeSecretSnapshotHelper f workspaceId d = (r, d') \<Longrightarrow> reachable d'"


section \<open>Example values\<close>

definition entry :: "string \<Rightarrow> string \<Rightarrow> secret_type \<Rightarrow> PushSecret" where
  "entry k v t =
     \<lparr>ciphertextKey = ''c:'' @ k, ivKey = ''iv'', tagKey = ''tag'', hashKey = k,
      ciphertextValue = ''c:'' @ v, ivValue = ''iv'', tagValue = ''tag'', hashValue = v,
      ptype = t\<rparr>"

text \<open>A stand-in for decryption on the example values: it removes the two-letter prefix.\<close>

definition stripPrefix :: decryptSymmetric where
  "stripPrefix ciphertext iv tag key = Inr (drop 2 ciphertext)"

text \<open>Alice has pushed one shared and one personal secret to an empty store.\<close>

definition exampleStore :: db where
  "exampleStore =
     snd (pushSecrets noFaults ''alice'' ''w'' ''dev''
            [entry ''k1'' ''v1'' SECRET_SHARED, entry ''k2'' ''v2'' SECRET_PERSONAL] emptyDb)"

definition onlyFault :: "call_site \<Rightarrow> faults" where
  "onlyFault c = (\<lambda>c'. c' = c)"

text \<open>An action that ends in an error from every store.\<close>

definition fails :: "'a action \<Rightarrow> bool" where
  "fails m \<longleftrightarrow> (\<forall>d. isl (fst (m d)))"

text \<open>All operations of a bulk write, applied to one document.\<close>

definition applyOperations :: "UpdateOne list \<Rightarrow> Secret \<Rightarrow> Secret" where
  "applyOperations ops s =
     fold (\<lambda>op t. if matchesFilter op t then applyUpdate (update op) t else t) ops s"

text \<open>
  The operation and the version document that \<^verbatim>\<open>pushSecrets\<close> builds for an entry of
  \<^verbatim>\<open>toUpdate\<close>, by whether the key hash of the entry is stored.
\<close>

definition operationFor :: "string \<Rightarrow> string \<Rightarrow> Secret list \<Rightarrow> PushSecret \<Rightarrow> UpdateOne" where
  "operationFor userId workspaceId oldSecrets s =
     (if hashKey s \<in> secretKeyHash ` set oldSecrets
      then updateOneFor userId workspaceId (storedFor oldSecrets s) s
      else updateNobody userId workspaceId s)"

definition versionDocFor :: "Secret list \<Rightarrow> PushSecret \<Rightarrow> SecretVersionDoc" where
  "versionDocFor oldSecrets s =
     (if hashKey s \<in> secretKeyHash ` set oldSecrets
      then updatedRow (storedFor oldSecrets s) s
      else rowOfNobody s)"

text \<open>The version rows that the store keeps for the documents of a push.\<close>

definition updatedVersionRow :: "Secret \<Rightarrow> PushSecret \<Rightarrow> SecretVersion" where
  "updatedVersionRow old s = storedVersion (secretId old) (version old + 1) (updatedRow old s)"

definition addedVersionRow :: "Secret \<Rightarrow> SecretVersion" where
  "addedVersionRow s = storedVersion (secretId s) 1 (addedVersion s)"

text \<open>
  Three stored secrets and a batch that leaves the first untouched, changes the value of
  the second, drops the third and brings a new one.
\<close>

definition exampleStored :: "Secret list" where
  "exampleStored =
     [stored 0 (newDoc ''alice'' ''w'' ''dev'' (entry ''k1'' ''v1'' SECRET_SHARED)),
      stored 1 (newDoc ''alice'' ''w'' ''dev'' (entry ''k2'' ''v2'' SECRET_PERSONAL)),
      stored 2 (newDoc ''alice'' ''w'' ''dev'' (entry ''k3'' ''v3'' SECRET_SHARED))]"

definition exampleBatch :: "PushSecret list" where
  "exampleBatch =
     [entry ''k1'' ''v1'' SECRET_SHARED, entry ''k2'' ''v9'' SECRET_PERSONAL,
      entry ''k4'' ''v4'' SECRET_SHARED]"

text \<open>
  A batch that repeats the key hash \<open>k1\<close> with two values and brings the key hash \<open>k5\<close>
  once as a shared and once as a personal secret.
\<close>

definition repeatingBatch :: "PushSecret list" where
  "repeatingBatch =
     [entry ''k1'' ''v1'' SECRET_SHARED, entry ''k1'' ''v7'' SECRET_SHARED,
      entry ''k5'' ''v5'' SECRET_SHARED, entry ''k5'' ''v6'' SECRET_PERSONAL]"


text \<open>The fields of a stored Secret that an update of \<^verbatim>\<open>toUpdate\<close> does not write.\<close>

definition frameFields ::
  "Secret \<Rightarrow> nat \<times> string \<times> string \<times> secret_type \<times> string \<times> string \<times> string \<times> string" where
  "frameFields s =
     (secretId s, workspace s, environment s, type s,
      secretKeyCiphertext s, secretKeyIV s, secretKeyTag s, secretKeyHash s)"


text \<open>Alice pushes the example batch to the example store.\<close>

definition exampleStore2 :: db where
  "exampleStore2 = snd (pushSecrets noFaults ''alice'' ''w'' ''dev'' exampleBatch exampleStore)"

section \<open>Unfolding the store calls\<close>

lemmas action_defs = return_def throw_def andThen_def tryCatch_def storeCall_def storeAction_def

lemmas eval_defs = pushSecrets_def pullSecrets_def takeSecretSnapshotHelper_def
  handleDeleting_def handleModifying_def handleAdding_def toDelete_def toUpdate_def toAdd_def
  oldSecretsObj_def newSecretsObj_def indexBy_def isIn_def operation_def updatedVersion_def
  updateDoc_def updateOneFor_def updatedRow_def updateNobody_def rowOfNobody_def getProp_def
  objectPrototypeKeys_def validated_def storedVersion_def newDoc_def addedVersion_def Secret_find_def Secret_deleteMany_def
  SecretVersion_markDeleted_def Secret_bulkWrite_def SecretVersion_insertMany_def
  Secret_insertMany_def SecretSnapshot_findLatest_def SecretSnapshot_save_def stored_def
  applyUpdate_def matchesFilter_def emptyDb_def noFaults_def entry_def onlyFault_def
  exampleStore_def visible_def

lemma fails_andThen: "(\<And>a. fails (k a)) \<Longrightarrow> fails (andThen m k)"
  by (auto simp: fails_def andThen_def split: prod.splits sum.splits)

lemma fails_tryCatch:
  assumes "fails m"
  shows "fst (tryCatch msg m d) = Inl (Error msg)"
proof -
  from assms have "isl (fst (m d))" by (simp add: fails_def)
  then obtain e d' where "m d = (Inl e, d')" by (cases "m d") (auto simp: isl_def)
  then show ?thesis by (simp add: tryCatch_def)
qed

lemma fails_tryCatch_again: "fails m \<Longrightarrow> fails (tryCatch msg m)"
  by (simp add: fails_def fails_tryCatch)

lemma exampleStore_Secrets:
  "Secrets exampleStore =
     [stored 0 (newDoc ''alice'' ''w'' ''dev'' (entry ''k1'' ''v1'' SECRET_SHARED)),
      stored 1 (newDoc ''alice'' ''w'' ''dev'' (entry ''k2'' ''v2'' SECRET_PERSONAL))]"
  by (simp add: eval_defs action_defs Let_def)

section \<open>pullSecrets\<close>

lemma pullSecrets_cases:
  "pullSecrets f u w e d =
     (if f PullFindShared \<or> f PullFindPersonal
      then (Inl (Error ''Failed to pull shared and personal secrets''), d)
      else (Inr (visible u w e d), d))"
  by (simp add: pullSecrets_def action_defs Secret_find_def visible_def)

text \<open>
  C8: when neither query rejects, \<^verbatim>\<open>pullSecrets\<close> returns the personal secrets that
  \<open>userId\<close> owns in the workspace and environment, in store order, followed by the
  shared secrets of the workspace and environment, in store order; the store is not
  changed.
\<close>

theorem pullSecrets_personal_then_shared:
  "\<not> f PullFindShared \<Longrightarrow> \<not> f PullFindPersonal \<Longrightarrow>
   pullSecrets f userId workspaceId env d =
     (Inr (filter (\<lambda>s. workspace s = workspaceId \<and> environment s = env
                       \<and> type s = SECRET_PERSONAL \<and> user s = Some userId) (Secrets d)
           @ filter (\<lambda>s. workspace s = workspaceId \<and> environment s = env
                         \<and> type s = SECRET_SHARED) (Secrets d)), d)"
  by (simp add: pullSecrets_cases visible_def)

text \<open>
  In the example store the shared secret was stored before Alice's personal one; she
  pulls the personal one first.
\<close>

theorem pullSecrets_personal_then_shared_witness:
  "\<not> noFaults PullFindShared \<and> \<not> noFaults PullFindPersonal \<and>
   pullSecrets noFaults ''alice'' ''w'' ''dev'' exampleStore =
     (Inr [stored 1 (newDoc ''alice'' ''w'' ''dev'' (entry ''k2'' ''v2'' SECRET_PERSONAL)),
           stored 0 (newDoc ''alice'' ''w'' ''dev'' (entry ''k1'' ''v1'' SECRET_SHARED))],
      exampleStore)"
  using pullSecrets_personal_then_shared [of noFaults "''alice''" "''w''" "''dev''" exampleStore]
  by (simp add: exampleStore_Secrets) (simp add: noFaults_def stored_def newDoc_def entry_def)

section \<open>decryptSecrets\<close>

text \<open>
  In the text format every line is followed by a newline: inside \<^verbatim>\<open>forEach\<close> the
  test \<^verbatim>\<open>idx < secrets.length\<close> holds at every index.
\<close>

lemma forEachSecret_text:
  "idx + length ss \<le> len \<Longrightarrow>
   forEachSecret dec key FormatText len idx ss (ContentText c) = Inr content \<Longrightarrow>
   \<exists>ls. length ls = length ss \<and> content = ContentText (c @ concat (map (\<lambda>l. l @ newline) ls))"
proof (induction ss arbitrary: idx c)
  case Nil
  then show ?case by simp
next
  case (Cons s ss)
  from Cons.prems(2) obtain k v where
    k: "dec (ciphertextKey s) (ivKey s) (tagKey s) key = Inr k" and
    v: "dec (ciphertextValue s) (ivValue s) (tagValue s) key = Inr v"
    by (auto simp: decryptOne_def split: sum.splits)
  from Cons.prems(1) have lt: "idx < len" by simp
  from k v lt have one:
    "decryptOne dec key FormatText len idx s (ContentText c)
       = Inr (ContentText (c @ (k @ ''='' @ v) @ newline))"
    by (simp add: decryptOne_def)
  with Cons.prems(2) have rest:
    "forEachSecret dec key FormatText len (Suc idx) ss (ContentText (c @ (k @ ''='' @ v) @ newline))
       = Inr content"
    by simp
  from Cons.prems(1) have "Suc idx + length ss \<le> len" by simp
  from Cons.IH [OF this rest] obtain ls where
    "length ls = length ss"
    "content = ContentText ((c @ (k @ ''='' @ v) @ newline) @ concat (map (\<lambda>l. l @ newline) ls))"
    by blast
  then have "length ((k @ ''='' @ v) # ls) = length (s # ss)
      \<and> content = ContentText (c @ concat (map (\<lambda>l. l @ newline) ((k @ ''='' @ v) # ls)))"
    by simp
  then show ?case by blast
qed

lemma decryptSecrets_text_ends_in_newline:
  assumes "decryptSecrets dec secrets key FormatText = Inr (ContentText c)" and "secrets \<noteq> []"
  shows "\<exists>c'. c = c' @ newline"
proof -
  from assms(1) have
    "forEachSecret dec key FormatText (length secrets) 0 secrets (ContentText []) = Inr (ContentText c)"
    by (simp add: decryptSecrets_def)
  from forEachSecret_text [OF _ this] obtain ls where
    ls: "length ls = length secrets" "c = concat (map (\<lambda>l. l @ newline) ls)" by auto
  with assms(2) have "ls \<noteq> []" by auto
  then obtain ls' l where "ls = ls' @ [l]" by (metis rev_exhaust)
  with ls show ?thesis by simp
qed

text \<open>
  C9 (the code departs from the claim): for one secret K=V the text format returns
  the line followed by a newline, and for two secrets both lines are followed by one;
  the claim has no newline after the final line.
\<close>

theorem decryptSecrets_text_final_newline:
  "decryptSecrets stripPrefix [entry ''K'' ''V'' SECRET_SHARED] ''key'' FormatText
     = Inr (ContentText (''K=V'' @ newline))
   \<and> decryptSecrets stripPrefix
       [entry ''A'' ''1'' SECRET_SHARED, entry ''B'' ''2'' SECRET_SHARED] ''key'' FormatText
     = Inr (ContentText (''A=1'' @ newline @ ''B=2'' @ newline))"
  by (simp add: decryptSecrets_def decryptOne_def stripPrefix_def entry_def)

section \<open>Failures of the snapshot\<close>

lemma fails_snapshot_body:
  assumes "f SnapshotFindLatest \<or> f SnapshotSave"
  shows "fails (andThen (storeCall f SnapshotFindSecrets (Secret_find (\<lambda>s. workspace s = w)))
          (\<lambda>secrets.
        andThen (storeCall f SnapshotFindLatest (SecretSnapshot_findLatest w))
          (\<lambda>latestSecretSnapshot.
        case latestSecretSnapshot of
          None \<Rightarrow>
            storeCall f SnapshotSave
              (SecretSnapshot_save
                 \<lparr>snap_workspace = w, snap_version = 1, snap_secrets = secrets\<rparr>)
        | Some latest \<Rightarrow>
            storeCall f SnapshotSave
              (SecretSnapshot_save
                 \<lparr>snap_workspace = w, snap_version = snap_version latest + 1,
                  snap_secrets = secrets\<rparr>))))"
  using assms
  by (auto simp: fails_def andThen_def storeCall_def split: prod.splits sum.splits option.splits)

lemma takeSecretSnapshotHelper_fails:
  "f SnapshotFindLatest \<or> f SnapshotSave \<Longrightarrow> fails (takeSecretSnapshotHelper f w)"
  unfolding takeSecretSnapshotHelper_def by (rule fails_tryCatch_again, rule fails_snapshot_body)

lemma takeSecretSnapshotHelper_error:
  "f SnapshotFindLatest \<or> f SnapshotSave \<Longrightarrow>
   fst (takeSecretSnapshotHelper f w d) = Inl (Error ''Failed to take a secret snapshot'')"
  unfolding takeSecretSnapshotHelper_def by (rule fails_tryCatch, rule fails_snapshot_body)

lemma pushSecrets_error:
  "f SnapshotFindLatest \<or> f SnapshotSave \<Longrightarrow>
   fst (pushSecrets f u w e B d) = Inl (Error ''Failed to push shared and personal secrets'')"
  unfolding pushSecrets_def
  by (intro fails_tryCatch fails_andThen takeSecretSnapshotHelper_fails)

text \<open>
  C7 as stated fails: a push in which only the write of the snapshot rejects, one in
  which only the read of the latest snapshot rejects and one in which only the insert of
  the new secrets rejects all surface the same error to the caller of the push.
\<close>

theorem snapshot_failure_not_distinct_counterexample:
  "fst (pushSecrets (onlyFault SnapshotSave) ''alice'' ''w'' ''dev''
          [entry ''k1'' ''v1'' SECRET_SHARED] emptyDb)
     = Inl (Error ''Failed to push shared and personal secrets'')
   \<and> fst (pushSecrets (onlyFault SnapshotFindLatest) ''alice'' ''w'' ''dev''
          [entry ''k1'' ''v1'' SECRET_SHARED] emptyDb)
     = Inl (Error ''Failed to push shared and personal secrets'')
   \<and> fst (pushSecrets (onlyFault PushInsertSecrets) ''alice'' ''w'' ''dev''
          [entry ''k1'' ''v1'' SECRET_SHARED] emptyDb)
     = Inl (Error ''Failed to push shared and personal secrets'')"
  by (simp add: eval_defs action_defs Let_def)

text \<open>
  C7, amended: when the read of the latest snapshot or the write of the new one rejects,
  \<^verbatim>\<open>takeSecretSnapshotHelper\<close> throws its own error, and \<^verbatim>\<open>pushSecrets\<close> fails with the
  error of every failed push.
\<close>

theorem snapshot_failure_surfaces_as_push_failure:
  "f SnapshotFindLatest \<or> f SnapshotSave \<Longrightarrow>
   fst (takeSecretSnapshotHelper f workspaceId d) = Inl (Error ''Failed to take a secret snapshot'')
   \<and> fst (pushSecrets f userId workspaceId env secrets d)
       = Inl (Error ''Failed to push shared and personal secrets'')"
  by (simp add: takeSecretSnapshotHelper_error pushSecrets_error)

theorem snapshot_failure_surfaces_as_push_failure_witness:
  "(onlyFault SnapshotSave SnapshotFindLatest \<or> onlyFault SnapshotSave SnapshotSave)
   \<and> fst (takeSecretSnapshotHelper (onlyFault SnapshotSave) ''w'' exampleStore)
       = Inl (Error ''Failed to take a secret snapshot'')
   \<and> fst (pushSecrets (onlyFault SnapshotSave) ''alice'' ''w'' ''dev''
            [entry ''k1'' ''v1'' SECRET_SHARED] exampleStore)
       = Inl (Error ''Failed to push shared and personal secrets'')"
  using snapshot_failure_surfaces_as_push_failure
          [of "onlyFault SnapshotSave" "''w''" exampleStore "''alice''" "''dev''"
              "[entry ''k1'' ''v1'' SECRET_SHARED]"]
  by (simp add: onlyFault_def)

section \<open>The dictionaries\<close>

lemma indexBy_Nil [simp]: "indexBy key [] = Map.empty"
  by (simp add: indexBy_def)

lemma indexBy_snoc [simp]: "indexBy key (xs @ [x]) = (indexBy key xs)(key x \<mapsto> x)"
  by (simp add: indexBy_def)

lemma indexBy_None: "indexBy key xs k = None \<longleftrightarrow> k \<notin> key ` set xs"
  by (induction xs rule: rev_induct) auto

lemma indexBy_Some_last:
  "k \<in> key ` set xs \<Longrightarrow> indexBy key xs k = Some (last (filter (\<lambda>x. key x = k) xs))"
proof (induction xs rule: rev_induct)
  case Nil
  then show ?case by simp
next
  case (snoc x xs)
  show ?case
  proof (cases "key x = k")
    case True
    then show ?thesis by simp
  next
    case False
    with snoc.prems have "k \<in> key ` set xs" by auto
    with snoc.IH False show ?thesis by simp
  qed
qed

lemma indexBy_Some_iff:
  "indexBy key xs k = Some x \<longleftrightarrow> k \<in> key ` set xs \<and> x = last (filter (\<lambda>x. key x = k) xs)"
  using indexBy_None [of key xs k] indexBy_Some_last [of k key xs] by (cases "indexBy key xs k") auto

lemma indexBy_SomeD: "indexBy key xs k = Some x \<Longrightarrow> x \<in> set xs \<and> key x = k"
proof -
  assume a: "indexBy key xs k = Some x"
  then have k: "k \<in> key ` set xs" and x: "x = last (filter (\<lambda>x. key x = k) xs)"
    by (simp_all add: indexBy_Some_iff)
  from k have ne: "filter (\<lambda>x. key x = k) xs \<noteq> []" by (auto simp: filter_empty_conv)
  from last_in_set [OF ne] x show ?thesis by auto
qed

lemma isIn_oldSecretsObj:
  "isIn k (oldSecretsObj S) \<longleftrightarrow> k \<in> secretKeyHash ` set S \<or> k \<in> set objectPrototypeKeys"
  by (simp add: isIn_def oldSecretsObj_def indexBy_None)

lemma isIn_newSecretsObj:
  "isIn k (newSecretsObj B) \<longleftrightarrow> k \<in> hashKey ` set B \<or> k \<in> set objectPrototypeKeys"
  by (simp add: isIn_def newSecretsObj_def indexBy_None)

lemma oldSecretsObj_storedFor:
  "hashKey s \<in> secretKeyHash ` set S \<Longrightarrow> oldSecretsObj S (hashKey s) = Some (storedFor S s)"
  by (simp add: oldSecretsObj_def storedFor_def indexBy_Some_last)

lemma oldSecretsObj_None: "hashKey s \<notin> secretKeyHash ` set S \<Longrightarrow> oldSecretsObj S (hashKey s) = None"
  by (simp add: oldSecretsObj_def indexBy_None)

lemma getProp_stored:
  "hashKey s \<in> secretKeyHash ` set S \<Longrightarrow> getProp (oldSecretsObj S) (hashKey s) = Own (storedFor S s)"
  by (simp add: getProp_def oldSecretsObj_storedFor)

lemma getProp_not_stored:
  "hashKey s \<notin> secretKeyHash ` set S \<Longrightarrow>
   getProp (oldSecretsObj S) (hashKey s)
     = (if hashKey s \<in> set objectPrototypeKeys then Inherited else Undefined)"
  by (simp add: getProp_def oldSecretsObj_None)

section \<open>Classification\<close>

lemma example_keys_own [simp]:
  "''k1'' \<notin> set objectPrototypeKeys" "''k2'' \<notin> set objectPrototypeKeys"
  "''k3'' \<notin> set objectPrototypeKeys" "''k4'' \<notin> set objectPrototypeKeys"
  by (simp_all add: objectPrototypeKeys_def)

lemma toDelete_eq:
  "toDelete S B =
     map secretId (filter (\<lambda>old. secretKeyHash old \<notin> hashKey ` set B
                                 \<and> secretKeyHash old \<notin> set objectPrototypeKeys) S)"
  by (simp add: toDelete_def isIn_newSecretsObj)

lemma toAdd_eq:
  "toAdd S B =
     filter (\<lambda>s. hashKey s \<notin> secretKeyHash ` set S \<and> hashKey s \<notin> set objectPrototypeKeys) B"
  by (simp add: toAdd_def isIn_oldSecretsObj)

lemma toUpdate_eq:
  "toUpdate S B =
     filter (\<lambda>s. if hashKey s \<in> secretKeyHash ` set S
                 then hashValue s \<noteq> secretValueHash (storedFor S s) \<or> ptype s \<noteq> type (storedFor S s)
                 else hashKey s \<in> set objectPrototypeKeys) B"
  unfolding toUpdate_def
proof (rule filter_cong [OF refl])
  fix s :: PushSecret
  show "(if isIn (hashKey s) (oldSecretsObj S)
         then (case getProp (oldSecretsObj S) (hashKey s) of
                 Own old \<Rightarrow>
                   if hashValue s \<noteq> secretValueHash old then True
                   else if ptype s \<noteq> type old then True
                   else False
               | Inherited \<Rightarrow> True
               | Undefined \<Rightarrow> False)
         else False)
        = (if hashKey s \<in> secretKeyHash ` set S
           then hashValue s \<noteq> secretValueHash (storedFor S s) \<or> ptype s \<noteq> type (storedFor S s)
           else hashKey s \<in> set objectPrototypeKeys)"
  proof (cases "hashKey s \<in> secretKeyHash ` set S")
    case True
    then show ?thesis by (simp add: getProp_stored isIn_oldSecretsObj)
  next
    case False
    then show ?thesis by (simp add: getProp_not_stored isIn_oldSecretsObj)
  qed
qed

text \<open>The entries of \<^verbatim>\<open>toUpdate\<close> that are compared with a stored record.\<close>

lemma toUpdate_own:
  assumes "s \<in> set (toUpdate S B)" and "hashKey s \<in> secretKeyHash ` set S"
  shows "s \<in> set B"
    and "hashValue s \<noteq> secretValueHash (storedFor S s) \<or> ptype s \<noteq> type (storedFor S s)"
  using assms by (simp_all add: toUpdate_eq)

lemma toUpdate_inherited:
  "s \<in> set B \<Longrightarrow> hashKey s \<notin> secretKeyHash ` set S \<Longrightarrow> hashKey s \<in> set objectPrototypeKeys
   \<Longrightarrow> s \<in> set (toUpdate S B)"
  by (simp add: toUpdate_eq)

lemma unique_storedFor:
  assumes d: "distinct (map secretKeyHash S)" and o: "old \<in> set S"
    and k: "secretKeyHash old = hashKey s"
  shows "storedFor S s = old"
proof -
  have "filter (\<lambda>x. secretKeyHash x = hashKey s) S = [old]"
    using d o k
  proof (induction S)
    case Nil then show ?case by simp
  next
    case (Cons a S)
    show ?case
    proof (cases "a = old")
      case True
      with Cons.prems have "hashKey s \<notin> secretKeyHash ` set S" by simp
      then have "\<forall>x \<in> set S. secretKeyHash x \<noteq> hashKey s" by (metis imageI)
      then have "filter (\<lambda>x. secretKeyHash x = hashKey s) S = []" by (simp add: filter_empty_conv)
      with True Cons.prems show ?thesis by simp
    next
      case False
      with Cons.prems have "old \<in> set S" "secretKeyHash a \<noteq> hashKey s" by (auto simp: image_iff)
      with Cons show ?thesis by simp
    qed
  qed
  then show ?thesis by (simp add: storedFor_def)
qed

text \<open>
  C1: the three filters test the key hash with \<^verbatim>\<open>in\<close> on objects that inherit from
  \<^verbatim>\<open>Object.prototype\<close>, so the classification is not by the stored key hashes alone.
  With nothing stored, an incoming entry whose key hash is \<^verbatim>\<open>constructor\<close> is absent
  from the stored state and yet is classified \<^verbatim>\<open>toUpdate\<close> and not \<^verbatim>\<open>toAdd\<close>; the
  operation built for it is addressed to no \<^verbatim>\<open>_id\<close>, and its version row has neither
  a secret nor a version. An entry with an ordinary key hash is classified \<^verbatim>\<open>toAdd\<close>
  on the same store.
\<close>

theorem inherited_key_hash_classified_toUpdate:
  "toAdd [] [entry ''constructor'' ''v1'' SECRET_SHARED] = []
   \<and> toUpdate [] [entry ''constructor'' ''v1'' SECRET_SHARED]
       = [entry ''constructor'' ''v1'' SECRET_SHARED]
   \<and> operation ''alice'' ''w'' (oldSecretsObj []) (entry ''constructor'' ''v1'' SECRET_SHARED)
       = Inr \<lparr>filter_workspace = ''w'', filter_id = None,
              update = updateDoc ''alice'' (entry ''constructor'' ''v1'' SECRET_SHARED)\<rparr>
   \<and> map_sum id (\<lambda>row. (svd_secret row, svd_version row))
         (updatedVersion (oldSecretsObj []) (entry ''constructor'' ''v1'' SECRET_SHARED))
       = Inr (None, None)
   \<and> toAdd [] [entry ''k1'' ''v1'' SECRET_SHARED] = [entry ''k1'' ''v1'' SECRET_SHARED]
   \<and> toUpdate [] [entry ''k1'' ''v1'' SECRET_SHARED] = []"
  by (simp add: toAdd_def toUpdate_def isIn_def getProp_def oldSecretsObj_def indexBy_def
      objectPrototypeKeys_def entry_def operation_def updatedVersion_def updateNobody_def
      rowOfNobody_def)

section \<open>Outcomes of the composed calls\<close>

lemma andThen_cases:
  assumes "andThen m k d = (r, d')"
  obtains (failed) e where "m d = (Inl e, d')" "r = Inl e"
        | (went_on) a d1 where "m d = (Inr a, d1)" "k a d1 = (r, d')"
proof (cases "m d")
  case (Pair x d1)
  show ?thesis
  proof (cases x)
    case (Inl e)
    with Pair assms have "m d = (Inl e, d')" "r = Inl e" by (auto simp: andThen_def)
    then show ?thesis by (rule failed)
  next
    case (Inr a)
    with Pair assms have "m d = (Inr a, d1)" "k a d1 = (r, d')" by (auto simp: andThen_def)
    then show ?thesis by (rule went_on)
  qed
qed

lemma tryCatch_cases:
  assumes "tryCatch msg m d = (r, d')"
  obtains (caught) e where "m d = (Inl e, d')" "r = Inl (Error msg)"
        | (passed) a where "m d = (Inr a, d')" "r = Inr a"
proof (cases "m d")
  case (Pair x d1)
  show ?thesis
  proof (cases x)
    case (Inl e)
    with Pair assms have "m d = (Inl e, d')" "r = Inl (Error msg)" by (auto simp: tryCatch_def)
    then show ?thesis by (rule caught)
  next
    case (Inr a)
    with Pair assms have "m d = (Inr a, d')" "r = Inr a" by (auto simp: tryCatch_def)
    then show ?thesis by (rule passed)
  qed
qed

lemma storeCall_cases:
  assumes "storeCall f c op d = (r, d')"
  obtains (rejected) "f c" "d' = d" "r = Inl (StoreError c)"
        | (accepted) a where "\<not> f c" "op d = (a, d')" "r = Inr a"
  using assms by (auto simp: storeCall_def split: if_splits prod.splits)

section \<open>The three write stages\<close>

lemma mapThrowing_total: "(\<And>x. x \<in> set xs \<Longrightarrow> g x = Inr (h x)) \<Longrightarrow> mapThrowing g xs = Inr (map h xs)"
  by (induction xs) simp_all

lemma those_total: "(\<And>x. x \<in> set xs \<Longrightarrow> g x = Some (h x)) \<Longrightarrow> those (map g xs) = Some (map h xs)"
  by (induction xs) simp_all

lemma those_None: "x \<in> set xs \<Longrightarrow> g x = None \<Longrightarrow> those (map g xs) = None"
  by (induction xs) (auto split: option.splits)

lemma toUpdate_getProp:
  assumes "s \<in> set (toUpdate S B)"
  shows "getProp (oldSecretsObj S) (hashKey s)
           = (if hashKey s \<in> secretKeyHash ` set S then Own (storedFor S s) else Inherited)"
proof (cases "hashKey s \<in> secretKeyHash ` set S")
  case True
  then show ?thesis by (simp add: getProp_stored)
next
  case False
  with assms have "hashKey s \<in> set objectPrototypeKeys" by (simp add: toUpdate_eq)
  with False show ?thesis by (simp add: getProp_not_stored)
qed

lemma operations_total:
  "mapThrowing (operation u w (oldSecretsObj S)) (toUpdate S B)
     = Inr (map (operationFor u w S) (toUpdate S B))"
  by (rule mapThrowing_total) (simp add: operation_def operationFor_def toUpdate_getProp)

lemma updatedVersions_total:
  "mapThrowing (updatedVersion (oldSecretsObj S)) (toUpdate S B)
     = Inr (map (versionDocFor S) (toUpdate S B))"
  by (rule mapThrowing_total) (simp add: updatedVersion_def versionDocFor_def toUpdate_getProp)

lemma validated_updatedRow [simp]: "validated (updatedRow old s) = Some (updatedVersionRow old s)"
  by (simp add: validated_def updatedVersionRow_def updatedRow_def)

lemma validated_rowOfNobody [simp]: "validated (rowOfNobody s) = None"
  by (simp add: validated_def rowOfNobody_def)

lemma validated_addedVersion [simp]: "validated (addedVersion t) = Some (addedVersionRow t)"
  by (simp add: validated_def addedVersionRow_def addedVersion_def)

text \<open>The version documents of the updates pass the validation when every entry has a stored record.\<close>

lemma insertMany_updated:
  "SecretVersion_insertMany (map (versionDocFor S) U) d =
     (if \<forall>s \<in> set U. hashKey s \<in> secretKeyHash ` set S
      then (Inr (), d\<lparr>SecretVersions :=
                        SecretVersions d @ map (\<lambda>s. updatedVersionRow (storedFor S s) s) U\<rparr>)
      else (Inl ValidationError, d))"
proof (cases "\<forall>s \<in> set U. hashKey s \<in> secretKeyHash ` set S")
  case True
  then have "those (map validated (map (versionDocFor S) U))
               = Some (map (\<lambda>s. updatedVersionRow (storedFor S s) s) U)"
    unfolding map_map comp_def by (intro those_total) (simp add: versionDocFor_def)
  with True show ?thesis by (simp add: SecretVersion_insertMany_def)
next
  case False
  then obtain s where s: "s \<in> set U" "hashKey s \<notin> secretKeyHash ` set S" by blast
  then have "validated (versionDocFor S s) = None" by (simp add: versionDocFor_def)
  with s(1) have "those (map (\<lambda>s. validated (versionDocFor S s)) U) = None" by (rule those_None)
  with False show ?thesis by (simp add: SecretVersion_insertMany_def comp_def)
qed

lemma insertMany_added:
  "SecretVersion_insertMany (map addedVersion N) d =
     (Inr (), d\<lparr>SecretVersions := SecretVersions d @ map addedVersionRow N\<rparr>)"
proof -
  have "those (map validated (map addedVersion N)) = Some (map addedVersionRow N)"
    unfolding map_map comp_def by (intro those_total) simp
  then show ?thesis by (simp add: SecretVersion_insertMany_def)
qed

lemma operations_stored:
  "\<forall>s \<in> set U. hashKey s \<in> secretKeyHash ` set S \<Longrightarrow>
   map (operationFor u w S) U = map (\<lambda>s. updateOneFor u w (storedFor S s) s) U"
  by (simp add: operationFor_def)

lemma handleDeleting_cases:
  assumes "handleDeleting f ids d = (r, d')"
  obtains (untouched) "d' = d" "r \<noteq> Inr () \<or> ids = []"
        | (half) "d' = snd (Secret_deleteMany ids d)" "r \<noteq> Inr ()"
        | (deleted) "d' = snd (SecretVersion_markDeleted ids (snd (Secret_deleteMany ids d)))" "r = Inr ()"
  using assms
  by (auto simp: handleDeleting_def action_defs Secret_deleteMany_def SecretVersion_markDeleted_def
           split: if_splits)

lemma handleModifying_cases:
  assumes "handleModifying f u w (oldSecretsObj S) (toUpdate S B) d = (r, d')"
  obtains (untouched) "d' = d" "r \<noteq> Inr ()"
        | (half) "d' = snd (Secret_bulkWrite (map (operationFor u w S) (toUpdate S B)) d)" "r \<noteq> Inr ()"
        | (modified)
            "\<forall>s \<in> set (toUpdate S B). hashKey s \<in> secretKeyHash ` set S"
            "d' = (snd (Secret_bulkWrite (map (\<lambda>s. updateOneFor u w (storedFor S s) s) (toUpdate S B)) d))
                    \<lparr>SecretVersions := SecretVersions d
                        @ map (\<lambda>s. updatedVersionRow (storedFor S s) s) (toUpdate S B)\<rparr>"
            "r = Inr ()"
proof (cases "f PushBulkWrite")
  case True
  with assms have "d' = d" "r \<noteq> Inr ()"
    by (auto simp: handleModifying_def operations_total action_defs)
  then show ?thesis by (rule untouched)
next
  case nb: False
  let ?d1 = "snd (Secret_bulkWrite (map (operationFor u w S) (toUpdate S B)) d)"
  have v: "SecretVersions ?d1 = SecretVersions d" by (simp add: Secret_bulkWrite_def)
  show ?thesis
  proof (cases "f PushInsertUpdatedVersions
                \<or> \<not> (\<forall>s \<in> set (toUpdate S B). hashKey s \<in> secretKeyHash ` set S)")
    case True
    with nb assms have "d' = ?d1" "r \<noteq> Inr ()"
      by (auto simp: handleModifying_def operations_total updatedVersions_total action_defs
            insertMany_updated Secret_bulkWrite_def split: if_splits)
    then show ?thesis by (rule half)
  next
    case False
    then have all: "\<forall>s \<in> set (toUpdate S B). hashKey s \<in> secretKeyHash ` set S" by blast
    from False nb assms all
    have "d' = ?d1\<lparr>SecretVersions := SecretVersions ?d1
                      @ map (\<lambda>s. updatedVersionRow (storedFor S s) s) (toUpdate S B)\<rparr>" "r = Inr ()"
      by (auto simp: handleModifying_def operations_total updatedVersions_total action_defs
            insertMany_updated Secret_bulkWrite_def split: if_splits)
    with all show ?thesis
      by (intro modified) (simp_all add: operations_stored Secret_bulkWrite_def)
  qed
qed

lemma handleAdding_cases:
  assumes "handleAdding f u w e adds d = (r, d')"
  obtains (untouched) "d' = d" "r \<noteq> Inr () \<or> adds = []"
        | (half) "d' = snd (Secret_insertMany (map (newDoc u w e) adds) d)" "r \<noteq> Inr ()"
        | (added) "d' = (snd (Secret_insertMany (map (newDoc u w e) adds) d))
                    \<lparr>SecretVersions := SecretVersions d
                        @ map addedVersionRow (fst (Secret_insertMany (map (newDoc u w e) adds) d))\<rparr>"
                  "r = Inr ()"
proof (cases "adds = [] \<or> f PushInsertSecrets")
  case True
  with assms have "d' = d" "r \<noteq> Inr () \<or> adds = []"
    by (auto simp: handleAdding_def action_defs split: if_splits)
  then show ?thesis by (rule untouched)
next
  case False
  obtain N d1 where ins: "Secret_insertMany (map (newDoc u w e) adds) d = (N, d1)" by force
  then have v: "SecretVersions d1 = SecretVersions d"
    by (auto simp: Secret_insertMany_def Let_def)
  from False ins
  have k: "handleAdding f u w e adds d
             = storeAction f PushInsertAddedVersions (SecretVersion_insertMany (map addedVersion N)) d1"
    by (simp add: handleAdding_def andThen_def storeCall_def)
  show ?thesis
  proof (cases "f PushInsertAddedVersions")
    case True
    with k assms have "d' = d1" "r \<noteq> Inr ()" by (auto simp: storeAction_def)
    with ins show ?thesis by (intro half) simp_all
  next
    case False
    with k assms have "d' = d1\<lparr>SecretVersions := SecretVersions d1 @ map addedVersionRow N\<rparr>" "r = Inr ()"
      by (auto simp: storeAction_def insertMany_added)
    with ins v show ?thesis by (intro added) simp_all
  qed
qed


section \<open>Bulk writes, document by document\<close>

lemma applyUpdate_frame [simp]:
  "secretId (applyUpdate u s) = secretId s"
  "workspace (applyUpdate u s) = workspace s"
  "environment (applyUpdate u s) = environment s"
  "type (applyUpdate u s) = type s"
  "secretKeyCiphertext (applyUpdate u s) = secretKeyCiphertext s"
  "secretKeyIV (applyUpdate u s) = secretKeyIV s"
  "secretKeyTag (applyUpdate u s) = secretKeyTag s"
  "secretKeyHash (applyUpdate u s) = secretKeyHash s"
  by (simp_all add: applyUpdate_def)

lemma matchesFilter_applyUpdate [simp]:
  "matchesFilter op (applyUpdate u s) = matchesFilter op s"
  by (simp add: matchesFilter_def)

lemma updateOne_pointwise:
  "distinct (map secretId xs) \<Longrightarrow>
   updateOne op xs = map (\<lambda>t. if matchesFilter op t then applyUpdate (update op) t else t) xs"
proof (induction xs)
  case Nil
  then show ?case by simp
next
  case (Cons a xs)
  show ?case
  proof (cases "matchesFilter op a")
    case True
    have "\<forall>t \<in> set xs. \<not> matchesFilter op t"
    proof
      fix t assume "t \<in> set xs"
      then have "secretId t \<in> secretId ` set xs" by (rule imageI)
      with Cons.prems have "secretId t \<noteq> secretId a" by auto
      with True show "\<not> matchesFilter op t" by (simp add: matchesFilter_def)
    qed
    then have "map (\<lambda>t. if matchesFilter op t then applyUpdate (update op) t else t) xs = xs"
      by (simp add: map_idI)
    with True show ?thesis by simp
  next
    case False
    with Cons show ?thesis by simp
  qed
qed

lemma applyOperations_Nil [simp]: "applyOperations [] s = s"
  by (simp add: applyOperations_def)

lemma applyOperations_Cons [simp]:
  "applyOperations (op # ops) s =
     applyOperations ops (if matchesFilter op s then applyUpdate (update op) s else s)"
  by (simp add: applyOperations_def)

lemma fold_updateOne_pointwise:
  "distinct (map secretId xs) \<Longrightarrow> fold updateOne ops xs = map (applyOperations ops) xs"
proof (induction ops arbitrary: xs)
  case Nil
  then show ?case by (simp add: map_idI)
next
  case (Cons op ops)
  let ?g = "\<lambda>t. if matchesFilter op t then applyUpdate (update op) t else t"
  have ids: "map secretId (map ?g xs) = map secretId xs" by simp
  from Cons.prems have "distinct (map secretId (map ?g xs))" unfolding ids .
  from Cons.IH [OF this] Cons.prems show ?case
    by (simp add: updateOne_pointwise)
qed

lemma applyOperations_frame [simp]:
  "secretId (applyOperations ops s) = secretId s"
  "workspace (applyOperations ops s) = workspace s"
  "environment (applyOperations ops s) = environment s"
  "type (applyOperations ops s) = type s"
  "secretKeyCiphertext (applyOperations ops s) = secretKeyCiphertext s"
  "secretKeyIV (applyOperations ops s) = secretKeyIV s"
  "secretKeyTag (applyOperations ops s) = secretKeyTag s"
  "secretKeyHash (applyOperations ops s) = secretKeyHash s"
  by (induction ops arbitrary: s; simp)+

lemma applyOperations_no_match:
  "\<forall>op \<in> set ops. \<not> matchesFilter op s \<Longrightarrow> applyOperations ops s = s"
  by (induction ops) simp_all

lemma applyOperations_matching:
  "applyOperations ops s = applyOperations (filter (\<lambda>op. matchesFilter op s) ops) s"
proof (induction ops arbitrary: s)
  case Nil
  then show ?case by simp
next
  case (Cons op ops)
  show ?case
  proof (cases "matchesFilter op s")
    case True
    have "applyOperations (op # ops) s = applyOperations ops (applyUpdate (update op) s)"
      using True by simp
    also have "\<dots> = applyOperations (filter (\<lambda>op'. matchesFilter op' (applyUpdate (update op) s)) ops)
                       (applyUpdate (update op) s)"
      by (rule Cons.IH)
    also have "\<dots> = applyOperations (filter (\<lambda>op'. matchesFilter op' s) (op # ops)) s"
      using True by simp
    finally show ?thesis .
  next
    case False
    then show ?thesis using Cons.IH [of s] by simp
  qed
qed

lemma applyOperations_one_match:
  "filter (\<lambda>op. matchesFilter op s) ops = [op] \<Longrightarrow>
   applyOperations ops s = applyUpdate (update op) s"
proof -
  assume a: "filter (\<lambda>op. matchesFilter op s) ops = [op]"
  then have "op \<in> set (filter (\<lambda>op. matchesFilter op s) ops)" by simp
  then have m: "matchesFilter op s" by simp
  have "applyOperations ops s = applyOperations [op] s"
    using applyOperations_matching [of ops s] a by simp
  with m show ?thesis by simp
qed


section \<open>The snapshot\<close>

lemma fold_latest_greatest:
  "fold (\<lambda>q best. if snap_version best < snap_version q then q else best) ps p \<in> set (p # ps)
   \<and> (\<forall>q \<in> set (p # ps). snap_version q
          \<le> snap_version (fold (\<lambda>q best. if snap_version best < snap_version q then q else best) ps p))"
proof (induction ps arbitrary: p)
  case Nil
  then show ?case by simp
next
  case (Cons q ps)
  show ?case
  proof (cases "snap_version p < snap_version q")
    case True
    with Cons.IH [of q] show ?thesis by auto
  next
    case False
    with Cons.IH [of p] show ?thesis by auto
  qed
qed

lemma fold_latest:
  "snap_version (fold (\<lambda>q best. if snap_version best < snap_version q then q else best) ps p)
     = Max (snap_version ` set (p # ps))"
proof (rule sym, rule Max_eqI)
  show "finite (snap_version ` set (p # ps))" by simp
  show "\<And>y. y \<in> snap_version ` set (p # ps) \<Longrightarrow>
          y \<le> snap_version (fold (\<lambda>q best. if snap_version best < snap_version q then q else best) ps p)"
    using fold_latest_greatest [of ps p] by auto
  show "snap_version (fold (\<lambda>q best. if snap_version best < snap_version q then q else best) ps p)
          \<in> snap_version ` set (p # ps)"
    using fold_latest_greatest [of ps p] by (intro imageI) simp
qed


section \<open>The snapshot helper\<close>

lemma findLatest_version:
  "fst (SecretSnapshot_findLatest w d) = None \<longleftrightarrow> snapshotVersions w d = []"
  "fst (SecretSnapshot_findLatest w d) = Some p \<Longrightarrow>
     snapshotVersions w d \<noteq> [] \<and> snap_version p = Max (set (snapshotVersions w d))"
proof -
  show "fst (SecretSnapshot_findLatest w d) = None \<longleftrightarrow> snapshotVersions w d = []"
    by (simp add: SecretSnapshot_findLatest_def snapshotVersions_def split: list.splits)
  assume a: "fst (SecretSnapshot_findLatest w d) = Some p"
  then obtain q qs where q: "filter (\<lambda>p. snap_workspace p = w) (SecretSnapshots d) = q # qs"
    and p: "p = fold (\<lambda>q best. if snap_version best < snap_version q then q else best) qs q"
    by (auto simp: SecretSnapshot_findLatest_def split: list.splits)
  from q have sv: "snapshotVersions w d = map snap_version (q # qs)"
    by (simp add: snapshotVersions_def)
  have "set (map snap_version (q # qs)) = snap_version ` set (q # qs)" by simp
  with p sv fold_latest [of qs q]
  show "snapshotVersions w d \<noteq> [] \<and> snap_version p = Max (set (snapshotVersions w d))"
    by simp
qed

lemma takeSecretSnapshotHelper_cases:
  assumes "takeSecretSnapshotHelper f w d = (r, d')"
  obtains (untouched) "d' = d" "r = Inl (Error ''Failed to take a secret snapshot'')"
                      "f SnapshotFindSecrets \<or> f SnapshotFindLatest \<or> f SnapshotSave"
        | (saved) "d' = d\<lparr>SecretSnapshots := SecretSnapshots d @ [expectedSnapshot w d]\<rparr>"
                  "r = Inr ()"
                  "\<not> f SnapshotFindSecrets" "\<not> f SnapshotFindLatest" "\<not> f SnapshotSave"
proof (cases "f SnapshotFindSecrets \<or> f SnapshotFindLatest \<or> f SnapshotSave")
  case True
  with assms have "d' = d" "r = Inl (Error ''Failed to take a secret snapshot'')"
    by (auto simp: takeSecretSnapshotHelper_def action_defs Secret_find_def
          SecretSnapshot_findLatest_def split: option.splits if_splits)
  with True show ?thesis using untouched by blast
next
  case False
  then have nf: "\<not> f SnapshotFindSecrets" "\<not> f SnapshotFindLatest" "\<not> f SnapshotSave" by simp_all
  obtain l where l: "SecretSnapshot_findLatest w d = (l, d)"
    by (simp add: SecretSnapshot_findLatest_def)
  have "d' = d\<lparr>SecretSnapshots := SecretSnapshots d @ [expectedSnapshot w d]\<rparr> \<and> r = Inr ()"
  proof (cases l)
    case None
    with l have "snapshotVersions w d = []" using findLatest_version(1) [of w d] by simp
    with assms nf l None show ?thesis
      by (simp add: takeSecretSnapshotHelper_def action_defs Secret_find_def
            SecretSnapshot_save_def expectedSnapshot_def)
  next
    case (Some p)
    with l have "snapshotVersions w d \<noteq> []" "snap_version p = Max (set (snapshotVersions w d))"
      using findLatest_version(2) [of w d p] by simp_all
    with assms nf l Some show ?thesis
      by (simp add: takeSecretSnapshotHelper_def action_defs Secret_find_def
            SecretSnapshot_save_def expectedSnapshot_def)
  qed
  with nf show ?thesis using saved by blast
qed

lemma takeSecretSnapshotHelper_ok:
  assumes "\<not> f SnapshotFindSecrets" "\<not> f SnapshotFindLatest" "\<not> f SnapshotSave"
  shows "takeSecretSnapshotHelper f w d
           = (Inr (), d\<lparr>SecretSnapshots := SecretSnapshots d @ [expectedSnapshot w d]\<rparr>)"
proof (cases "takeSecretSnapshotHelper f w d")
  case (Pair r d')
  from Pair show ?thesis
  proof (cases rule: takeSecretSnapshotHelper_cases)
    case untouched
    with assms show ?thesis by simp
  next
    case saved
    with Pair show ?thesis by simp
  qed
qed

lemma snapshotVersions_saved:
  assumes "snapshotVersions w' d = [1..<Suc n]"
  shows "\<exists>m. snapshotVersions w' (d\<lparr>SecretSnapshots := SecretSnapshots d @ [expectedSnapshot w d]\<rparr>)
              = [1..<Suc m]"
proof (cases "w' = w")
  case False
  with assms show ?thesis by (auto simp: snapshotVersions_def expectedSnapshot_def)
next
  case True
  show ?thesis
  proof (cases "n = 0")
    case True
    with assms \<open>w' = w\<close> have "snapshotVersions w d = []" by simp
    then have "snapshotVersions w (d\<lparr>SecretSnapshots := SecretSnapshots d @ [expectedSnapshot w d]\<rparr>)
                 = [1..<Suc 1]"
      by (simp add: snapshotVersions_def expectedSnapshot_def)
    with \<open>w' = w\<close> show ?thesis by blast
  next
    case False
    with assms \<open>w' = w\<close> have ne: "snapshotVersions w d \<noteq> []" by auto
    from False assms \<open>w' = w\<close> have "Max (set (snapshotVersions w d)) = n"
      by (auto intro!: Max_eqI)
    with ne assms \<open>w' = w\<close>
    have "snapshotVersions w (d\<lparr>SecretSnapshots := SecretSnapshots d @ [expectedSnapshot w d]\<rparr>)
            = [1..<Suc (Suc n)]"
      by (simp add: snapshotVersions_def expectedSnapshot_def)
    with \<open>w' = w\<close> show ?thesis by blast
  qed
qed

section \<open>The stages of a push\<close>

lemma pushSecrets_cases:
  assumes "pushSecrets f u w e B d = (r, d')"
  obtains (pull_failed) "d' = d" "r \<noteq> Inr ()"
  | (delete_failed) r1 where
      "handleDeleting f (toDelete (visible u w e d) B) d = (r1, d')" "r1 \<noteq> Inr ()" "r \<noteq> Inr ()"
  | (modify_failed) d1 r2 where
      "handleDeleting f (toDelete (visible u w e d) B) d = (Inr (), d1)"
      "handleModifying f u w (oldSecretsObj (visible u w e d)) (toUpdate (visible u w e d) B) d1
         = (r2, d')" "r2 \<noteq> Inr ()" "r \<noteq> Inr ()"
  | (add_failed) d1 d2 r3 where
      "handleDeleting f (toDelete (visible u w e d) B) d = (Inr (), d1)"
      "handleModifying f u w (oldSecretsObj (visible u w e d)) (toUpdate (visible u w e d) B) d1
         = (Inr (), d2)"
      "handleAdding f u w e (toAdd (visible u w e d) B) d2 = (r3, d')" "r3 \<noteq> Inr ()" "r \<noteq> Inr ()"
  | (snapshot) d1 d2 d3 r4 where
      "handleDeleting f (toDelete (visible u w e d) B) d = (Inr (), d1)"
      "handleModifying f u w (oldSecretsObj (visible u w e d)) (toUpdate (visible u w e d) B) d1
         = (Inr (), d2)"
      "handleAdding f u w e (toAdd (visible u w e d) B) d2 = (Inr (), d3)"
      "takeSecretSnapshotHelper f w d3 = (r4, d')" "r = Inr () \<longleftrightarrow> r4 = Inr ()"
proof -
  let ?S = "visible u w e d"
  let ?body = "andThen (pullSecrets f u w e)
          (\<lambda>oldSecrets.
        andThen (handleDeleting f (toDelete oldSecrets B))
          (\<lambda>_.
        andThen (handleModifying f u w (oldSecretsObj oldSecrets) (toUpdate oldSecrets B))
          (\<lambda>_.
        andThen (handleAdding f u w e (toAdd oldSecrets B))
          (\<lambda>_.
        takeSecretSnapshotHelper f w))))"
  from assms have tc: "tryCatch ''Failed to push shared and personal secrets'' ?body d = (r, d')"
    by (simp add: pushSecrets_def)
  obtain r0 where body: "?body d = (r0, d')" and rr: "r = Inr () \<longleftrightarrow> r0 = Inr ()"
    using tc by (cases rule: tryCatch_cases) auto
  from body show ?thesis
  proof (cases rule: andThen_cases)
    case (failed e0)
    then have "d' = d" by (auto simp: pullSecrets_cases split: if_splits)
    moreover from failed rr have "r \<noteq> Inr ()" by simp
    ultimately show ?thesis by (rule pull_failed)
  next
    case (went_on S d0)
    then have S: "S = ?S" and d0: "d0 = d" by (auto simp: pullSecrets_cases split: if_splits)
    from went_on(2) show ?thesis unfolding S d0
    proof (cases rule: andThen_cases)
      case (failed e1)
      with rr show ?thesis by (intro delete_failed [of "Inl e1"]) simp_all
    next
      case del: (went_on a1 d1)
      from del(2) show ?thesis
      proof (cases rule: andThen_cases)
        case (failed e2)
        with rr del(1) show ?thesis by (intro modify_failed [of d1 "Inl e2"]) simp_all
      next
        case mod: (went_on a2 d2)
        from mod(2) show ?thesis
        proof (cases rule: andThen_cases)
          case (failed e3)
          with rr del(1) mod(1) show ?thesis by (intro add_failed [of d1 d2 "Inl e3"]) simp_all
        next
          case add: (went_on a3 d3)
          with rr del(1) mod(1) show ?thesis by (intro snapshot [of d1 d2 d3 r0]) simp_all
        qed
      qed
    qed
  qed
qed


section \<open>Snapshot versions\<close>

lemma handleDeleting_SecretSnapshots:
  "handleDeleting f ids d = (r, d') \<Longrightarrow> SecretSnapshots d' = SecretSnapshots d"
  by (cases rule: handleDeleting_cases)
     (auto simp: Secret_deleteMany_def SecretVersion_markDeleted_def)

lemma handleModifying_SecretSnapshots:
  "handleModifying f u w (oldSecretsObj S) (toUpdate S B) d = (r, d') \<Longrightarrow>
   SecretSnapshots d' = SecretSnapshots d"
  by (cases rule: handleModifying_cases)
     (auto simp: Secret_bulkWrite_def SecretVersion_insertMany_def)

lemma handleAdding_SecretSnapshots:
  "handleAdding f u w e adds d = (r, d') \<Longrightarrow> SecretSnapshots d' = SecretSnapshots d"
  by (cases rule: handleAdding_cases)
     (auto simp: Secret_insertMany_def SecretVersion_insertMany_def Let_def)

lemma takeSecretSnapshotHelper_gapless:
  assumes "takeSecretSnapshotHelper f w d = (r, d')" and "\<exists>n. snapshotVersions w' d = [1..<Suc n]"
  shows "\<exists>n. snapshotVersions w' d' = [1..<Suc n]"
  using assms(1)
proof (cases rule: takeSecretSnapshotHelper_cases)
  case untouched
  with assms(2) show ?thesis by simp
next
  case saved
  from assms(2) obtain n where "snapshotVersions w' d = [1..<Suc n]" ..
  from snapshotVersions_saved [OF this, of w] saved(1) show ?thesis by simp
qed

lemma pushSecrets_gapless:
  assumes "pushSecrets f u w e B d = (r, d')" and "\<exists>n. snapshotVersions w' d = [1..<Suc n]"
  shows "\<exists>n. snapshotVersions w' d' = [1..<Suc n]"
  using assms(1)
proof (cases rule: pushSecrets_cases)
  case pull_failed
  from pull_failed(1) assms(2) show ?thesis by simp
next
  case (delete_failed r1)
  from delete_failed(1) have "SecretSnapshots d' = SecretSnapshots d"
    by (rule handleDeleting_SecretSnapshots)
  with assms(2) show ?thesis by (simp add: snapshotVersions_def)
next
  case (modify_failed d1 r2)
  from modify_failed(1,2) have "SecretSnapshots d' = SecretSnapshots d"
    using handleDeleting_SecretSnapshots [OF modify_failed(1)]
      handleModifying_SecretSnapshots [OF modify_failed(2)] by simp
  with assms(2) show ?thesis by (simp add: snapshotVersions_def)
next
  case (add_failed d1 d2 r3)
  have "SecretSnapshots d' = SecretSnapshots d"
    using handleDeleting_SecretSnapshots [OF add_failed(1)]
      handleModifying_SecretSnapshots [OF add_failed(2)]
      handleAdding_SecretSnapshots [OF add_failed(3)] by simp
  with assms(2) show ?thesis by (simp add: snapshotVersions_def)
next
  case (snapshot d1 d2 d3 r4)
  have "SecretSnapshots d3 = SecretSnapshots d"
    using handleDeleting_SecretSnapshots [OF snapshot(1)]
      handleModifying_SecretSnapshots [OF snapshot(2)]
      handleAdding_SecretSnapshots [OF snapshot(3)] by simp
  with assms(2) have "\<exists>n. snapshotVersions w' d3 = [1..<Suc n]"
    by (simp add: snapshotVersions_def)
  with snapshot(4) show ?thesis by (rule takeSecretSnapshotHelper_gapless)
qed

lemma reachable_gapless: "reachable d \<Longrightarrow> \<exists>n. snapshotVersions w d = [1..<Suc n]"
proof (induction rule: reachable.induct)
  case reachable_empty
  have "snapshotVersions w emptyDb = [1..<Suc 0]" by (simp add: snapshotVersions_def emptyDb_def)
  then show ?case by blast
next
  case (reachable_push d f userId workspaceId env secrets r d')
  from reachable_push(2) reachable_push(3) show ?case by (rule pushSecrets_gapless)
next
  case (reachable_snapshot d f workspaceId r d')
  from reachable_snapshot(2) reachable_snapshot(3) show ?case by (rule takeSecretSnapshotHelper_gapless)
qed

text \<open>
  C4: when none of its three store calls rejects, \<^verbatim>\<open>takeSecretSnapshotHelper\<close> appends
  exactly one snapshot for the workspace: its version is 1 when the workspace has no
  snapshot and the greatest existing version plus 1 otherwise, and its secret list is
  every Secret row of the workspace, whatever the environment. In every store that a
  single writer reaches from the empty one by pushes and snapshot calls, failed ones
  included, the snapshot versions of each workspace are \<open>1, 2, \<dots>, n\<close> in the order they
  were written.
\<close>

theorem takeSecretSnapshotHelper_next_version:
  "(\<not> f SnapshotFindSecrets \<and> \<not> f SnapshotFindLatest \<and> \<not> f SnapshotSave \<longrightarrow>
      takeSecretSnapshotHelper f workspaceId d =
        (Inr (),
         d\<lparr>SecretSnapshots := SecretSnapshots d @
             [\<lparr>snap_workspace = workspaceId,
               snap_version = (if snapshotVersions workspaceId d = [] then 1
                               else Max (set (snapshotVersions workspaceId d)) + 1),
               snap_secrets = filter (\<lambda>s. workspace s = workspaceId) (Secrets d)\<rparr>]\<rparr>))
   \<and> (reachable d \<longrightarrow> (\<exists>n. snapshotVersions workspaceId d = [1..<Suc n]))"
  using takeSecretSnapshotHelper_ok [of f workspaceId d] reachable_gapless [of d workspaceId]
  by (simp add: expectedSnapshot_def)

lemma reachable_exampleStore: "reachable exampleStore"
proof -
  have "pushSecrets noFaults ''alice'' ''w'' ''dev''
          [entry ''k1'' ''v1'' SECRET_SHARED, entry ''k2'' ''v2'' SECRET_PERSONAL] emptyDb
        = (fst (pushSecrets noFaults ''alice'' ''w'' ''dev''
                 [entry ''k1'' ''v1'' SECRET_SHARED, entry ''k2'' ''v2'' SECRET_PERSONAL] emptyDb),
           exampleStore)"
    by (simp add: exampleStore_def)
  with reachable_empty show ?thesis by (rule reachable_push)
qed




lemma exampleStore_snapshots:
  "snapshotVersions ''w'' exampleStore = [1]"
  "snapshotVersions ''w'' (snd (takeSecretSnapshotHelper noFaults ''w'' exampleStore)) = [1, 2]"
  "map snap_secrets (SecretSnapshots (snd (takeSecretSnapshotHelper noFaults ''w'' exampleStore)))
       = [Secrets exampleStore, Secrets exampleStore]"
  by code_simp+


theorem takeSecretSnapshotHelper_next_version_witness:
  "\<not> noFaults SnapshotFindSecrets \<and> \<not> noFaults SnapshotFindLatest \<and> \<not> noFaults SnapshotSave
   \<and> reachable exampleStore
   \<and> snapshotVersions ''w'' exampleStore = [1]
   \<and> snapshotVersions ''w'' (snd (takeSecretSnapshotHelper noFaults ''w'' exampleStore)) = [1, 2]
   \<and> map snap_secrets (SecretSnapshots (snd (takeSecretSnapshotHelper noFaults ''w'' exampleStore)))
       = [Secrets exampleStore, Secrets exampleStore]"
  using takeSecretSnapshotHelper_next_version [of noFaults "''w''" exampleStore]
    reachable_exampleStore exampleStore_snapshots
  by (simp add: noFaults_def)


section \<open>Deleting\<close>




section \<open>Updating\<close>

lemma updateOne_frame: "map frameFields (updateOne op xs) = map frameFields xs"
  by (induction xs) (simp_all add: frameFields_def)

lemma fold_updateOne_frame: "map frameFields (fold updateOne ops xs) = map frameFields xs"
  by (induction ops arbitrary: xs) (simp_all add: updateOne_frame)


section \<open>What a push sees\<close>

lemma visible_subset: "set (visible u w e d) \<subseteq> set (Secrets d)"
  by (auto simp: visible_def)

lemma visible_iff:
  "t \<in> set (visible u w e d) \<longleftrightarrow>
     t \<in> set (Secrets d) \<and> workspace t = w \<and> environment t = e
     \<and> (type t = SECRET_PERSONAL \<longrightarrow> user t = Some u)"
proof -
  have "type t = SECRET_SHARED \<or> type t = SECRET_PERSONAL" by (cases "type t") simp_all
  then show ?thesis by (auto simp: visible_def)
qed

lemma storedFor_in:
  assumes "hashKey s \<in> secretKeyHash ` set S"
  shows "storedFor S s \<in> set S" and "secretKeyHash (storedFor S s) = hashKey s"
proof -
  from assms have "oldSecretsObj S (hashKey s) = Some (storedFor S s)"
    by (rule oldSecretsObj_storedFor)
  then have "indexBy secretKeyHash S (hashKey s) = Some (storedFor S s)"
    by (simp add: oldSecretsObj_def)
  from indexBy_SomeD [OF this]
  show "storedFor S s \<in> set S" and "secretKeyHash (storedFor S s) = hashKey s" by simp_all
qed

lemma toUpdate_storedFor:
  assumes "s \<in> set (toUpdate S B)" and "hashKey s \<in> secretKeyHash ` set S"
  shows "storedFor S s \<in> set S" and "secretKeyHash (storedFor S s) = hashKey s" and "s \<in> set B"
  using assms storedFor_in [of s S] by (simp_all add: toUpdate_eq)

lemma same_id_same_secret:
  "distinct (map secretId xs) \<Longrightarrow> a \<in> set xs \<Longrightarrow> b \<in> set xs \<Longrightarrow> secretId a = secretId b \<Longrightarrow> a = b"
  by (meson distinct_map inj_onD)

section \<open>Key hashes stay unique\<close>

lemma scopedKey_applyUpdate:
  "type t = SECRET_PERSONAL \<longrightarrow> set_user up = None \<or> set_user up = user t \<Longrightarrow>
   scopedKey (applyUpdate up t) = scopedKey t \<and>
   (type t = SECRET_PERSONAL \<longrightarrow> user (applyUpdate up t) = user t)"
  by (auto simp: scopedKey_def applyUpdate_def split: option.splits)

lemma scopedKey_applyOperations:
  "(\<forall>op \<in> set ops. matchesFilter op t \<longrightarrow> type t = SECRET_PERSONAL \<longrightarrow>
       set_user (update op) = None \<or> set_user (update op) = user t) \<Longrightarrow>
   scopedKey (applyOperations ops t) = scopedKey t"
proof (induction ops arbitrary: t)
  case Nil
  then show ?case by simp
next
  case (Cons op ops)
  show ?case
  proof (cases "matchesFilter op t")
    case False
    with Cons.prems have "scopedKey (applyOperations ops t) = scopedKey t"
      by (intro Cons.IH) simp
    with False show ?thesis by simp
  next
    case True
    let ?t = "applyUpdate (update op) t"
    from True Cons.prems have c: "type t = SECRET_PERSONAL \<longrightarrow>
       set_user (update op) = None \<or> set_user (update op) = user t" by simp
    from scopedKey_applyUpdate [OF c] have k: "scopedKey ?t = scopedKey t"
      and u: "type t = SECRET_PERSONAL \<longrightarrow> user ?t = user t" by simp_all
    have "scopedKey (applyOperations ops ?t) = scopedKey ?t"
    proof (rule Cons.IH, intro ballI impI)
      fix op' assume "op' \<in> set ops" "matchesFilter op' ?t" "type ?t = SECRET_PERSONAL"
      with Cons.prems u show "set_user (update op') = None \<or> set_user (update op') = user ?t"
        by simp
    qed
    with k True show ?thesis by simp
  qed
qed

lemma keysOk_filter:
  assumes "wfIds d" "uniqueKeys d" "Secrets d' = filter P (Secrets d)" "nextId d' = nextId d"
  shows "wfIds d' \<and> uniqueKeys d'"
  using assms by (simp add: wfIds_def uniqueKeys_def distinct_map_filter)

lemma keysOk_same:
  assumes "wfIds d" "uniqueKeys d" "Secrets d' = Secrets d" "nextId d' = nextId d"
  shows "wfIds d' \<and> uniqueKeys d'"
  using assms by (simp add: wfIds_def uniqueKeys_def)

lemma keysOk_pointwise:
  assumes "wfIds d" "uniqueKeys d" "Secrets d' = map g (Secrets d)" "nextId d' = nextId d"
    and "\<forall>t \<in> set (Secrets d). secretId (g t) = secretId t \<and> scopedKey (g t) = scopedKey t"
  shows "wfIds d' \<and> uniqueKeys d'"
proof -
  from assms(5) have "map secretId (map g (Secrets d)) = map secretId (Secrets d)"
    and "map scopedKey (map g (Secrets d)) = map scopedKey (Secrets d)" by simp_all
  with assms(1-4) show ?thesis
    by (simp add: wfIds_def uniqueKeys_def del: map_map)
       (metis (no_types, lifting) assms(5) imageE list.set_map)
qed

lemma handleDeleting_Secrets:
  assumes "handleDeleting f ids d = (r, d')"
  shows "nextId d' = nextId d"
    and "Secrets d' = Secrets d \<or> Secrets d' = filter (\<lambda>s. secretId s \<notin> set ids) (Secrets d)"
    and "r = Inr () \<Longrightarrow> Secrets d' = filter (\<lambda>s. secretId s \<notin> set ids) (Secrets d)"
    and "r = Inr () \<Longrightarrow> SecretVersions d' =
           map (\<lambda>v. if sv_secret v \<in> set ids then v\<lparr>sv_isDeleted := True\<rparr> else v) (SecretVersions d)"
  using assms
  by (cases rule: handleDeleting_cases;
      auto simp: Secret_deleteMany_def SecretVersion_markDeleted_def map_idI)+

lemma handleModifying_Secrets:
  assumes "handleModifying f u w (oldSecretsObj S) (toUpdate S B) d = (r, d')"
  shows "nextId d' = nextId d"
    and "Secrets d' = Secrets d
         \<or> Secrets d' = fold updateOne (map (operationFor u w S) (toUpdate S B)) (Secrets d)"
    and "r = Inr () \<Longrightarrow>
         Secrets d' = fold updateOne (map (operationFor u w S) (toUpdate S B)) (Secrets d)"
    and "r = Inr () \<Longrightarrow>
         SecretVersions d' = SecretVersions d @ map (\<lambda>s. updatedVersionRow (storedFor S s) s) (toUpdate S B)"
    and "r = Inr () \<Longrightarrow> \<forall>s \<in> set (toUpdate S B). hashKey s \<in> secretKeyHash ` set S"
  using assms
  by (cases rule: handleModifying_cases;
      auto simp: Secret_bulkWrite_def operations_stored)+

lemma handleAdding_Secrets:
  assumes "handleAdding f u w e adds d = (r, d')"
  shows "(Secrets d' = Secrets d \<and> nextId d' = nextId d)
         \<or> (Secrets d' = Secrets d @ fst (Secret_insertMany (map (newDoc u w e) adds) d)
             \<and> nextId d' = nextId d + length adds)"
    and "r = Inr () \<Longrightarrow>
         Secrets d' = Secrets d @ fst (Secret_insertMany (map (newDoc u w e) adds) d)
         \<and> nextId d' = nextId d + length adds
         \<and> SecretVersions d' = SecretVersions d
              @ map addedVersionRow (fst (Secret_insertMany (map (newDoc u w e) adds) d))"
  using assms
  by (cases rule: handleAdding_cases;
      auto simp: Secret_insertMany_def Let_def)+

lemma takeSecretSnapshotHelper_Secrets:
  assumes "takeSecretSnapshotHelper f w d = (r, d')"
  shows "Secrets d' = Secrets d" "nextId d' = nextId d" "SecretVersions d' = SecretVersions d"
  using assms by (cases rule: takeSecretSnapshotHelper_cases; simp)+

lemma stored_simps [simp]:
  "secretId (stored i doc) = i"
  "version (stored i doc) = 1"
  "workspace (stored i doc) = workspace doc"
  "environment (stored i doc) = environment doc"
  "type (stored i doc) = type doc"
  "user (stored i doc) = user doc"
  "secretKeyHash (stored i doc) = secretKeyHash doc"
  by (simp_all add: stored_def)

lemma stored_zip_ids:
  "length is = length docs \<Longrightarrow> map secretId (map (\<lambda>(i, doc). stored i doc) (zip is docs)) = is"
  by (induction "is" docs rule: list_induct2) simp_all


lemma stored_zip_scopedKeys:
  "length is = length adds \<Longrightarrow>
   map scopedKey (map (\<lambda>(i, doc). stored i doc) (zip is (map (newDoc u w e) adds)))
     = map (\<lambda>s. (w, e, ptype s, (if ptype s = SECRET_PERSONAL then Some u else None), hashKey s)) adds"
  by (induction "is" adds rule: list_induct2) (simp_all add: scopedKey_def newDoc_def)

lemma insertMany_ids:
  "map secretId (fst (Secret_insertMany docs d)) = [nextId d ..< nextId d + length docs]"
  by (simp add: Secret_insertMany_def Let_def stored_zip_ids del: map_map)


lemma insertMany_scopedKeys:
  "map scopedKey (fst (Secret_insertMany (map (newDoc u w e) adds) d))
     = map (\<lambda>s. (w, e, ptype s, (if ptype s = SECRET_PERSONAL then Some u else None), hashKey s)) adds"
  using stored_zip_scopedKeys [of "[nextId d ..< nextId d + length adds]" adds u w e]
  by (simp add: Secret_insertMany_def Let_def del: map_map)

lemma keysOk_shape:
  assumes wf: "wfIds d" and uk: "uniqueKeys d"
    and g: "\<forall>t \<in> set (Secrets d). secretId (g t) = secretId t \<and> scopedKey (g t) = scopedKey t"
    and shape: "Secrets d' = map g (filter P (Secrets d)) @ news"
    and nxt: "nextId d' = nextId d + length news"
    and ids: "map secretId news = [nextId d ..< nextId d + length news]"
    and fresh: "distinct (map scopedKey news)"
    and apart: "\<forall>t \<in> set (Secrets d). \<forall>n \<in> set news. scopedKey t \<noteq> scopedKey n"
  shows "wfIds d' \<and> uniqueKeys d'"
proof -
  let ?X = "filter P (Secrets d)"
  from g have gi: "map secretId (map g ?X) = map secretId ?X"
    and gk: "map scopedKey (map g ?X) = map scopedKey ?X" by simp_all
  from wf have d1: "distinct (map secretId ?X)" and lt: "\<forall>t \<in> set ?X. secretId t < nextId d"
    by (simp_all add: wfIds_def distinct_map_filter)
  from uk have d2: "distinct (map scopedKey ?X)" by (simp add: uniqueKeys_def distinct_map_filter)
  have "distinct (map secretId (map g ?X @ news))"
  proof -
    have "set (map secretId ?X) \<inter> set (map secretId news) = {}"
      using lt unfolding ids by auto
    with d1 ids show ?thesis unfolding map_append gi by (simp del: map_map)
  qed
  moreover have "\<forall>t \<in> set (map g ?X @ news). secretId t < nextId d + length news"
  proof
    fix t assume "t \<in> set (map g ?X @ news)"
    then consider t0 where "t0 \<in> set ?X" "t = g t0" | "t \<in> set news" by auto
    then show "secretId t < nextId d + length news"
    proof cases
      case 1
      with g lt show ?thesis by (simp add: trans_less_add1)
    next
      case 2
      then have "secretId t \<in> set (map secretId news)" by simp
      then show ?thesis unfolding ids by simp
    qed
  qed
  moreover have "distinct (map scopedKey (map g ?X @ news))"
  proof -
    have "set (map scopedKey ?X) \<inter> set (map scopedKey news) = {}"
    proof (rule ccontr)
      assume "set (map scopedKey ?X) \<inter> set (map scopedKey news) \<noteq> {}"
      then obtain k where k1: "k \<in> set (map scopedKey ?X)" and k2: "k \<in> set (map scopedKey news)"
        by blast
      from k1 obtain t where t: "t \<in> set ?X" "k = scopedKey t" by (metis imageE list.set_map)
      from k2 obtain n where n: "n \<in> set news" "k = scopedKey n" by (metis imageE list.set_map)
      from t have "t \<in> set (Secrets d)" by simp
      with apart n t show False by metis
    qed
    with d2 fresh show ?thesis unfolding map_append gk by (simp del: map_map)
  qed
  ultimately show ?thesis using shape nxt by (simp add: wfIds_def uniqueKeys_def)
qed

lemma keysOk_shape_no_news:
  assumes "wfIds d" "uniqueKeys d"
    and "\<forall>t \<in> set (Secrets d). secretId (g t) = secretId t \<and> scopedKey (g t) = scopedKey t"
    and "Secrets d' = map g (filter P (Secrets d))"
    and "nextId d' = nextId d"
  shows "wfIds d' \<and> uniqueKeys d'"
  using keysOk_shape [OF assms(1-3), of d' P "[]"] assms(4,5) by simp

lemma distinct_map_finer:
  "distinct (map f xs) \<Longrightarrow> (\<And>x y. h x = h y \<Longrightarrow> f x = f y) \<Longrightarrow> distinct (map h xs)"
proof (induction xs)
  case Nil
  show ?case by simp
next
  case (Cons a xs)
  have "h a \<notin> h ` set xs"
  proof
    assume "h a \<in> h ` set xs"
    then obtain x where x: "x \<in> set xs" "h a = h x" by blast
    from Cons.prems(2) [OF x(2)] have "f a = f x" .
    with x(1) have "f a \<in> f ` set xs" by (metis imageI)
    with Cons.prems(1) show False by simp
  qed
  moreover have "distinct (map h xs)"
  proof (rule Cons.IH)
    from Cons.prems(1) show "distinct (map f xs)" by simp
    show "\<And>x y. h x = h y \<Longrightarrow> f x = f y" by (rule Cons.prems(2))
  qed
  ultimately show ?case by simp
qed

lemma operations_keep_identity:
  fixes u w e :: string and d :: db and B :: "PushSecret list"
  defines "S \<equiv> visible u w e d"
  defines "ops \<equiv> map (operationFor u w S) (toUpdate S B)"
  assumes wf: "wfIds d" and t: "t \<in> set (Secrets d)"
  shows "secretId (applyOperations ops t) = secretId t \<and> scopedKey (applyOperations ops t) = scopedKey t"
proof
  show "secretId (applyOperations ops t) = secretId t" by simp
  show "scopedKey (applyOperations ops t) = scopedKey t"
  proof (rule scopedKey_applyOperations, intro ballI impI)
    fix op assume op: "op \<in> set ops" and m: "matchesFilter op t" and p: "type t = SECRET_PERSONAL"
    from op obtain s where s: "s \<in> set (toUpdate S B)" and op': "op = operationFor u w S s"
      by (auto simp: ops_def)
    from m op' have own: "hashKey s \<in> secretKeyHash ` set S"
      by (auto simp: operationFor_def matchesFilter_def updateNobody_def split: if_splits)
    with op' have ops: "op = updateOneFor u w (storedFor S s) s" by (simp add: operationFor_def)
    from toUpdate_storedFor(1) [OF s own] have inS: "storedFor S s \<in> set S" .
    then have inD: "storedFor S s \<in> set (Secrets d)" using visible_subset [of u w e d] by (auto simp: S_def)
    from m ops have "secretId t = secretId (storedFor S s)"
      by (simp add: matchesFilter_def updateOneFor_def)
    with wf t inD have "t = storedFor S s"
      by (auto simp: wfIds_def intro: same_id_same_secret)
    with inS p have "user t = Some u" by (simp add: S_def visible_iff)
    with ops show "set_user (update op) = None \<or> set_user (update op) = user t"
      by (simp add: updateOneFor_def updateDoc_def)
  qed
qed

lemma new_keys_apart:
  assumes s: "s \<in> set (toAdd (visible u w e d) B)" and t: "t \<in> set (Secrets d)"
  shows "scopedKey t \<noteq> (w, e, ptype s, (if ptype s = SECRET_PERSONAL then Some u else None), hashKey s)"
proof
  assume eq: "scopedKey t = (w, e, ptype s, (if ptype s = SECRET_PERSONAL then Some u else None), hashKey s)"
  then have "workspace t = w" "environment t = e" "type t = ptype s" "secretKeyHash t = hashKey s"
    by (simp_all add: scopedKey_def)
  from eq have "type t = SECRET_PERSONAL \<longrightarrow> user t = Some u"
    by (auto simp: scopedKey_def split: if_splits)
  with t \<open>workspace t = w\<close> \<open>environment t = e\<close> have "t \<in> set (visible u w e d)"
    by (simp add: visible_iff)
  with \<open>secretKeyHash t = hashKey s\<close> have "hashKey s \<in> secretKeyHash ` set (visible u w e d)"
    by (metis imageI)
  with s show False by (simp add: toAdd_eq)
qed

lemma new_keys_distinct:
  assumes "distinct (map (\<lambda>s. (ptype s, hashKey s)) A)"
  shows "distinct (map (\<lambda>s. (w, e, ptype s, (if ptype s = SECRET_PERSONAL then Some u else None), hashKey s))
                       A)"
  using assms by (rule distinct_map_finer) simp


lemma pushSecrets_keysOk:
  assumes wf: "wfIds d" and uk: "uniqueKeys d"
    and dB: "distinct (map (\<lambda>s. (ptype s, hashKey s)) (toAdd (visible userId workspaceId env d) secrets))"
    and push: "pushSecrets f userId workspaceId env secrets d = (r, d')"
  shows "wfIds d' \<and> uniqueKeys d'"
proof -
  define S where "S = visible userId workspaceId env d"
  define ops where "ops = map (operationFor userId workspaceId S) (toUpdate S secrets)"
  define P :: "Secret \<Rightarrow> bool" where "P = (\<lambda>s. secretId s \<notin> set (toDelete S secrets))"
  define docs where "docs = map (newDoc userId workspaceId env) (toAdd S secrets)"
  have g: "\<forall>t \<in> set (Secrets d). secretId (applyOperations ops t) = secretId t
              \<and> scopedKey (applyOperations ops t) = scopedKey t"
    using operations_keep_identity [OF wf, of _ userId workspaceId env secrets]
    by (simp add: ops_def S_def)
  have idg: "\<forall>t \<in> set (Secrets d). secretId (id t) = secretId t \<and> scopedKey (id t) = scopedKey t"
    by simp
  from wf have dX: "distinct (map secretId (filter P (Secrets d)))"
    by (simp add: wfIds_def distinct_map_filter)
  \<comment> \<open>the three shapes of the Secret collection during the push\<close>
  have deleted: "wfIds x \<and> uniqueKeys x"
    if "Secrets x = filter P (Secrets d)" "nextId x = nextId d" for x
    using keysOk_shape_no_news [OF wf uk idg, of x P] that by simp
  have modified: "wfIds x \<and> uniqueKeys x"
    if "Secrets x = fold updateOne ops (filter P (Secrets d))" "nextId x = nextId d" for x
    using keysOk_shape_no_news [OF wf uk g, of x P] that
    by (simp add: fold_updateOne_pointwise [OF dX])
  have added: "wfIds x \<and> uniqueKeys x"
    if sx: "Secrets x = fold updateOne ops (filter P (Secrets d)) @ fst (Secret_insertMany docs y)"
      and nx: "nextId x = nextId d + length (toAdd S secrets)" and ny: "nextId y = nextId d" for x y
  proof (rule keysOk_shape [OF wf uk g, of x P "fst (Secret_insertMany docs y)"])
    have len: "length (fst (Secret_insertMany docs y)) = length (toAdd S secrets)"
      using insertMany_ids [of docs y] by (metis docs_def length_map length_upt add_diff_cancel_left')
    from sx show "Secrets x = map (applyOperations ops) (filter P (Secrets d)) @ fst (Secret_insertMany docs y)"
      by (simp add: fold_updateOne_pointwise [OF dX])
    from nx len show "nextId x = nextId d + length (fst (Secret_insertMany docs y))" by simp
    from len ny show "map secretId (fst (Secret_insertMany docs y))
            = [nextId d ..< nextId d + length (fst (Secret_insertMany docs y))]"
      by (simp add: insertMany_ids docs_def)
    show "distinct (map scopedKey (fst (Secret_insertMany docs y)))"
      unfolding docs_def insertMany_scopedKeys using dB unfolding S_def by (rule new_keys_distinct)
    show "\<forall>t \<in> set (Secrets d). \<forall>n \<in> set (fst (Secret_insertMany docs y)). scopedKey t \<noteq> scopedKey n"
    proof (intro ballI)
      fix t n assume t: "t \<in> set (Secrets d)" and n: "n \<in> set (fst (Secret_insertMany docs y))"
      then have "scopedKey n \<in> set (map scopedKey (fst (Secret_insertMany docs y)))" by simp
      then obtain s where "s \<in> set (toAdd S secrets)"
        and "scopedKey n = (workspaceId, env, ptype s,
               (if ptype s = SECRET_PERSONAL then Some userId else None), hashKey s)"
        unfolding docs_def insertMany_scopedKeys by auto
      with new_keys_apart [of s userId workspaceId env d secrets t] t
      show "scopedKey t \<noteq> scopedKey n" by (simp add: S_def)
    qed
  qed
  from push show ?thesis
  proof (cases rule: pushSecrets_cases)
    case pull_failed
    with wf uk show ?thesis by simp
  next
    case (delete_failed r1)
    from handleDeleting_Secrets(1,2) [OF delete_failed(1)]
    have "nextId d' = nextId d" and "Secrets d' = Secrets d \<or> Secrets d' = filter P (Secrets d)"
      by (simp_all add: P_def S_def)
    then show ?thesis using deleted [of d'] keysOk_same [OF wf uk, of d'] by blast
  next
    case (modify_failed d1 r2)
    from handleDeleting_Secrets(1,3) [OF modify_failed(1)]
    have d1: "nextId d1 = nextId d" "Secrets d1 = filter P (Secrets d)"
      by (simp_all add: P_def S_def)
    from handleModifying_Secrets(1,2) [OF modify_failed(2)] d1
    have "nextId d' = nextId d"
      and "Secrets d' = filter P (Secrets d) \<or> Secrets d' = fold updateOne ops (filter P (Secrets d))"
      by (simp_all add: ops_def S_def)
    then show ?thesis using deleted [of d'] modified [of d'] by blast
  next
    case (add_failed d1 d2 r3)
    from handleDeleting_Secrets(1,3) [OF add_failed(1)]
    have d1: "nextId d1 = nextId d" "Secrets d1 = filter P (Secrets d)"
      by (simp_all add: P_def S_def)
    from handleModifying_Secrets(1,3) [OF add_failed(2)] d1
    have d2: "nextId d2 = nextId d" "Secrets d2 = fold updateOne ops (filter P (Secrets d))"
      by (simp_all add: ops_def S_def)
    from handleAdding_Secrets(1) [OF add_failed(3)] d2
    have "(Secrets d' = fold updateOne ops (filter P (Secrets d)) \<and> nextId d' = nextId d)
        \<or> (Secrets d' = fold updateOne ops (filter P (Secrets d)) @ fst (Secret_insertMany docs d2)
            \<and> nextId d' = nextId d + length (toAdd S secrets))"
      by (simp add: docs_def S_def)
    then show ?thesis using modified [of d'] added [of d' d2] d2(1) by blast
  next
    case (snapshot d1 d2 d3 r4)
    from handleDeleting_Secrets(1,3) [OF snapshot(1)]
    have d1: "nextId d1 = nextId d" "Secrets d1 = filter P (Secrets d)"
      by (simp_all add: P_def S_def)
    from handleModifying_Secrets(1,3) [OF snapshot(2)] d1
    have d2: "nextId d2 = nextId d" "Secrets d2 = fold updateOne ops (filter P (Secrets d))"
      by (simp_all add: ops_def S_def)
    from handleAdding_Secrets(2) [OF snapshot(3)] d2
    have "Secrets d3 = fold updateOne ops (filter P (Secrets d)) @ fst (Secret_insertMany docs d2)"
      and "nextId d3 = nextId d + length (toAdd S secrets)"
      by (simp_all add: docs_def S_def)
    with takeSecretSnapshotHelper_Secrets(1,2) [OF snapshot(4)]
    have "Secrets d' = fold updateOne ops (filter P (Secrets d)) @ fst (Secret_insertMany docs d2)"
      and "nextId d' = nextId d + length (toAdd S secrets)" by simp_all
    then show ?thesis using added [of d' d2] d2(1) by blast
  qed
qed

text \<open>
  C6, amended: in a store whose ObjectIds are unique and in which no two Secret rows
  of one workspace, environment and owner scope (shared, or the personal secrets of one
  user) have the same key hash, a push leaves a store with both properties, whether it
  succeeds or fails at any store call, provided that no two of the entries it classifies
  \<^verbatim>\<open>toAdd\<close> have both the same type and the same key hash. Entries with a stored key
  hash may repeat, and a new key hash may come once as shared and once as personal.
\<close>

theorem pushSecrets_keeps_key_hashes_unique:
  assumes "wfIds d" and "uniqueKeys d"
    and "distinct (map (\<lambda>s. (ptype s, hashKey s)) (toAdd (visible userId workspaceId env d) secrets))"
    and "pushSecrets f userId workspaceId env secrets d = (r, d')"
  shows "wfIds d' \<and> uniqueKeys d'"
  using assms by (rule pushSecrets_keysOk)

text \<open>
  Alice pushes to the example store a batch with the stored key hash \<open>k1\<close> twice and the
  new key hash \<open>k5\<close> once as shared and once as personal: the push succeeds and the key
  hashes stay unique in each scope.
\<close>

theorem pushSecrets_keeps_key_hashes_unique_witness:
  "wfIds exampleStore \<and> uniqueKeys exampleStore
   \<and> map hashKey repeatingBatch = [''k1'', ''k1'', ''k5'', ''k5'']
   \<and> toAdd (visible ''alice'' ''w'' ''dev'' exampleStore) repeatingBatch
       = [entry ''k5'' ''v5'' SECRET_SHARED, entry ''k5'' ''v6'' SECRET_PERSONAL]
   \<and> fst (pushSecrets noFaults ''alice'' ''w'' ''dev'' repeatingBatch exampleStore) = Inr ()
   \<and> wfIds (snd (pushSecrets noFaults ''alice'' ''w'' ''dev'' repeatingBatch exampleStore))
   \<and> uniqueKeys (snd (pushSecrets noFaults ''alice'' ''w'' ''dev'' repeatingBatch exampleStore))
   \<and> map scopedKey
         (Secrets (snd (pushSecrets noFaults ''alice'' ''w'' ''dev'' repeatingBatch exampleStore)))
       = [(''w'', ''dev'', SECRET_SHARED, None, ''k1''),
          (''w'', ''dev'', SECRET_SHARED, None, ''k5''),
          (''w'', ''dev'', SECRET_PERSONAL, Some ''alice'', ''k5'')]"
proof -
  have a: "wfIds exampleStore" "uniqueKeys exampleStore" by code_simp+
  have t: "toAdd (visible ''alice'' ''w'' ''dev'' exampleStore) repeatingBatch
       = [entry ''k5'' ''v5'' SECRET_SHARED, entry ''k5'' ''v6'' SECRET_PERSONAL]"
    by code_simp
  have c: "distinct (map (\<lambda>s. (ptype s, hashKey s))
             (toAdd (visible ''alice'' ''w'' ''dev'' exampleStore) repeatingBatch))"
    unfolding t by (simp add: entry_def)
  have b: "pushSecrets noFaults ''alice'' ''w'' ''dev'' repeatingBatch exampleStore
       = (fst (pushSecrets noFaults ''alice'' ''w'' ''dev'' repeatingBatch exampleStore),
          snd (pushSecrets noFaults ''alice'' ''w'' ''dev'' repeatingBatch exampleStore))"
    by simp
  have e: "map hashKey repeatingBatch = [''k1'', ''k1'', ''k5'', ''k5'']"
    by (simp add: repeatingBatch_def entry_def)
  have g: "fst (pushSecrets noFaults ''alice'' ''w'' ''dev'' repeatingBatch exampleStore) = Inr ()"
    by code_simp
  have h: "map scopedKey
         (Secrets (snd (pushSecrets noFaults ''alice'' ''w'' ''dev'' repeatingBatch exampleStore)))
       = [(''w'', ''dev'', SECRET_SHARED, None, ''k1''),
          (''w'', ''dev'', SECRET_SHARED, None, ''k5''),
          (''w'', ''dev'', SECRET_PERSONAL, Some ''alice'', ''k5'')]"
    by code_simp
  from pushSecrets_keeps_key_hashes_unique [OF a c b] a t e g h show ?thesis by blast
qed

text \<open>
  C6 as stated fails: a batch with the key hash \<open>k1\<close> twice, pushed to the empty store,
  succeeds and stores two shared Secret rows of the same workspace and environment with
  that key hash.
\<close>

theorem duplicate_key_hashes_stored_twice_counterexample:
  "wfIds emptyDb \<and> uniqueKeys emptyDb
   \<and> fst (pushSecrets noFaults ''alice'' ''w'' ''dev''
            [entry ''k1'' ''v1'' SECRET_SHARED, entry ''k1'' ''v2'' SECRET_SHARED] emptyDb) = Inr ()
   \<and> map scopedKey (Secrets (snd (pushSecrets noFaults ''alice'' ''w'' ''dev''
            [entry ''k1'' ''v1'' SECRET_SHARED, entry ''k1'' ''v2'' SECRET_SHARED] emptyDb)))
       = [(''w'', ''dev'', SECRET_SHARED, None, ''k1''), (''w'', ''dev'', SECRET_SHARED, None, ''k1'')]
   \<and> \<not> uniqueKeys (snd (pushSecrets noFaults ''alice'' ''w'' ''dev''
            [entry ''k1'' ''v1'' SECRET_SHARED, entry ''k1'' ''v2'' SECRET_SHARED] emptyDb))"
  by code_simp

section \<open>A successful push, written out\<close>

lemma insertMany_nextId:
  "nextId y = nextId d \<Longrightarrow> fst (Secret_insertMany docs y) = fst (Secret_insertMany docs d)"
  by (simp add: Secret_insertMany_def Let_def)

lemma pushSecrets_success:
  assumes "pushSecrets f u w e B d = (Inr (), d')"
  shows "Secrets d' =
           fold updateOne (map (\<lambda>s. updateOneFor u w (storedFor (visible u w e d) s) s)
                               (toUpdate (visible u w e d) B))
             (filter (\<lambda>s. secretId s \<notin> set (toDelete (visible u w e d) B)) (Secrets d))
           @ fst (Secret_insertMany (map (newDoc u w e) (toAdd (visible u w e d) B)) d)"
    and "SecretVersions d' =
           map (\<lambda>v. if sv_secret v \<in> set (toDelete (visible u w e d) B)
                     then v\<lparr>sv_isDeleted := True\<rparr> else v) (SecretVersions d)
           @ map (\<lambda>s. updatedVersionRow (storedFor (visible u w e d) s) s) (toUpdate (visible u w e d) B)
           @ map addedVersionRow
               (fst (Secret_insertMany (map (newDoc u w e) (toAdd (visible u w e d) B)) d))"
    and "nextId d' = nextId d + length (toAdd (visible u w e d) B)"
    and "SecretSnapshots d' = SecretSnapshots d
           @ [\<lparr>snap_workspace = w,
                snap_version = (if snapshotVersions w d = [] then 1
                                else Max (set (snapshotVersions w d)) + 1),
                snap_secrets = filter (\<lambda>s. workspace s = w) (Secrets d')\<rparr>]"
    and "\<forall>s \<in> set (toUpdate (visible u w e d) B). hashKey s \<in> secretKeyHash ` set (visible u w e d)"
proof -
  let ?S = "visible u w e d"
  from assms obtain d1 d2 d3 where
    del: "handleDeleting f (toDelete ?S B) d = (Inr (), d1)" and
    mod: "handleModifying f u w (oldSecretsObj ?S) (toUpdate ?S B) d1 = (Inr (), d2)" and
    add: "handleAdding f u w e (toAdd ?S B) d2 = (Inr (), d3)" and
    snap: "takeSecretSnapshotHelper f w d3 = (Inr (), d')"
    by (cases rule: pushSecrets_cases) auto
  note d1 = handleDeleting_Secrets(3,4) [OF del refl]
    handleDeleting_Secrets(1) [OF del] handleDeleting_SecretSnapshots [OF del]
  note own = handleModifying_Secrets(5) [OF mod refl]
  note d2 = handleModifying_Secrets(1) [OF mod]
    handleModifying_Secrets(3,4) [OF mod refl, unfolded operations_stored [OF own]]
    handleModifying_SecretSnapshots [OF mod]
  from own show "\<forall>s \<in> set (toUpdate ?S B). hashKey s \<in> secretKeyHash ` set ?S" .
  note d3 = handleAdding_Secrets(2) [OF add refl] handleAdding_SecretSnapshots [OF add]
  from d1 d2 have n2: "nextId d2 = nextId d" by simp
  note news = insertMany_nextId [OF n2, of "map (newDoc u w e) (toAdd ?S B)"]
  from snap have d4: "d' = d3\<lparr>SecretSnapshots := SecretSnapshots d3 @ [expectedSnapshot w d3]\<rparr>"
    by (cases rule: takeSecretSnapshotHelper_cases) simp_all
  from d1 d2 d3 d4 news show "Secrets d' =
           fold updateOne (map (\<lambda>s. updateOneFor u w (storedFor ?S s) s) (toUpdate ?S B))
             (filter (\<lambda>s. secretId s \<notin> set (toDelete ?S B)) (Secrets d))
           @ fst (Secret_insertMany (map (newDoc u w e) (toAdd ?S B)) d)"
    by simp
  from d1 d2 d3 d4 news show "SecretVersions d' =
           map (\<lambda>v. if sv_secret v \<in> set (toDelete ?S B)
                     then v\<lparr>sv_isDeleted := True\<rparr> else v) (SecretVersions d)
           @ map (\<lambda>s. updatedVersionRow (storedFor ?S s) s) (toUpdate ?S B)
           @ map addedVersionRow (fst (Secret_insertMany (map (newDoc u w e) (toAdd ?S B)) d))"
    by simp
  from d1 d2 d3 d4 show "nextId d' = nextId d + length (toAdd ?S B)" by simp
  from d1 d2 d3 have "SecretSnapshots d3 = SecretSnapshots d" by simp
  then have "snapshotVersions w d3 = snapshotVersions w d" by (simp add: snapshotVersions_def)
  with d4 \<open>SecretSnapshots d3 = SecretSnapshots d\<close>
  show "SecretSnapshots d' = SecretSnapshots d
           @ [\<lparr>snap_workspace = w,
                snap_version = (if snapshotVersions w d = [] then 1
                                else Max (set (snapshotVersions w d)) + 1),
                snap_secrets = filter (\<lambda>s. workspace s = w) (Secrets d')\<rparr>]"
    by (simp add: expectedSnapshot_def)
qed

section \<open>The version ledger\<close>

lemma distinct_map_finer_on:
  assumes "distinct (map f xs)"
    and "\<And>x y. x \<in> set xs \<Longrightarrow> y \<in> set xs \<Longrightarrow> h x = h y \<Longrightarrow> f x = f y"
  shows "distinct (map h xs)"
  using assms(1) assms(2)
proof (induction xs)
  case Nil
  show ?case by simp
next
  case (Cons a xs)
  have "h a \<notin> h ` set xs"
  proof
    assume "h a \<in> h ` set xs"
    then obtain x where x: "x \<in> set xs" "h a = h x" by blast
    have "f a = f x" by (rule Cons.prems(2)) (use x in simp_all)
    with x(1) have "f a \<in> f ` set xs" by (metis imageI)
    with Cons.prems(1) show False by simp
  qed
  moreover have "distinct (map h xs)"
  proof (rule Cons.IH)
    from Cons.prems(1) show "distinct (map f xs)" by simp
    fix x y assume "x \<in> set xs" "y \<in> set xs" "h x = h y"
    then show "f x = f y" by (intro Cons.prems(2)) simp_all
  qed
  ultimately show ?case by simp
qed

lemma at_most_one:
  "distinct (map h xs) \<Longrightarrow> filter (\<lambda>s. h s = i) xs = [] \<or> (\<exists>s. filter (\<lambda>s. h s = i) xs = [s])"
proof (induction xs)
  case Nil
  show ?case by simp
next
  case (Cons a xs)
  show ?case
  proof (cases "h a = i")
    case True
    with Cons.prems have "\<forall>x \<in> set xs. h x \<noteq> i" by (auto simp: image_iff)
    then have "filter (\<lambda>s. h s = i) xs = []" by (simp add: filter_empty_conv)
    with True show ?thesis by simp
  next
    case False
    with Cons show ?thesis by simp
  qed
qed

lemma targets_distinct:
  assumes wf: "wfIds d" and dB: "distinct (map hashKey B)"
    and own: "\<forall>s \<in> set (toUpdate (visible u w e d) B). hashKey s \<in> secretKeyHash ` set (visible u w e d)"
  shows "distinct (map (\<lambda>s. secretId (storedFor (visible u w e d) s)) (toUpdate (visible u w e d) B))"
proof (rule distinct_map_finer_on [where f = hashKey])
  let ?S = "visible u w e d"
  from dB show "distinct (map hashKey (toUpdate ?S B))"
    by (simp add: toUpdate_eq distinct_map_filter)
  fix x y assume x: "x \<in> set (toUpdate ?S B)" and y: "y \<in> set (toUpdate ?S B)"
    and eq: "secretId (storedFor ?S x) = secretId (storedFor ?S y)"
  from own x y have ox: "hashKey x \<in> secretKeyHash ` set ?S" and oy: "hashKey y \<in> secretKeyHash ` set ?S"
    by blast+
  from toUpdate_storedFor(1) [OF x ox] toUpdate_storedFor(1) [OF y oy] visible_subset [of u w e d]
  have "storedFor ?S x \<in> set (Secrets d)" "storedFor ?S y \<in> set (Secrets d)" by auto
  with wf eq have "storedFor ?S x = storedFor ?S y"
    by (auto simp: wfIds_def intro: same_id_same_secret)
  with toUpdate_storedFor(2) [OF x ox] toUpdate_storedFor(2) [OF y oy]
  show "hashKey x = hashKey y" by simp
qed

lemma matching_operations:
  assumes wf: "wfIds d" and t: "t \<in> set (Secrets d)"
    and own: "\<forall>s \<in> set (toUpdate (visible u w e d) B). hashKey s \<in> secretKeyHash ` set (visible u w e d)"
  shows "filter (\<lambda>op. matchesFilter op t)
           (map (\<lambda>s. updateOneFor u w (storedFor (visible u w e d) s) s) (toUpdate (visible u w e d) B))
         = map (\<lambda>s. updateOneFor u w (storedFor (visible u w e d) s) s)
             (filter (\<lambda>s. secretId (storedFor (visible u w e d) s) = secretId t)
                     (toUpdate (visible u w e d) B))"
proof -
  let ?S = "visible u w e d"
  have "\<forall>s \<in> set (toUpdate ?S B).
          matchesFilter (updateOneFor u w (storedFor ?S s) s) t
          = (secretId (storedFor ?S s) = secretId t)"
  proof
    fix s assume s: "s \<in> set (toUpdate ?S B)"
    show "matchesFilter (updateOneFor u w (storedFor ?S s) s) t
          = (secretId (storedFor ?S s) = secretId t)"
    proof (cases "secretId (storedFor ?S s) = secretId t")
      case False
      then show ?thesis by (auto simp: matchesFilter_def updateOneFor_def)
    next
      case True
      from own s have "hashKey s \<in> secretKeyHash ` set ?S" by blast
      from toUpdate_storedFor(1) [OF s this] have inS: "storedFor ?S s \<in> set ?S" .
      with visible_subset [of u w e d] have "storedFor ?S s \<in> set (Secrets d)" by auto
      with wf t True have "storedFor ?S s = t" by (auto simp: wfIds_def intro: same_id_same_secret)
      with inS have "workspace t = w" by (simp add: visible_iff)
      with True show ?thesis by (simp add: matchesFilter_def updateOneFor_def)
    qed
  qed
  then show ?thesis by (simp add: filter_map comp_def cong: filter_cong)
qed










section \<open>Pushing the same batch again\<close>

lemma kept_iff:
  assumes wf: "wfIds d" and t: "t \<in> set (visible u w e d)"
  shows "secretId t \<notin> set (toDelete (visible u w e d) B)
         \<longleftrightarrow> secretKeyHash t \<in> hashKey ` set B \<or> secretKeyHash t \<in> set objectPrototypeKeys"
proof
  assume "secretId t \<notin> set (toDelete (visible u w e d) B)"
  with t show "secretKeyHash t \<in> hashKey ` set B \<or> secretKeyHash t \<in> set objectPrototypeKeys"
    by (auto simp: toDelete_eq)
next
  assume k: "secretKeyHash t \<in> hashKey ` set B \<or> secretKeyHash t \<in> set objectPrototypeKeys"
  show "secretId t \<notin> set (toDelete (visible u w e d) B)"
  proof
    assume "secretId t \<in> set (toDelete (visible u w e d) B)"
    then obtain t' where t': "t' \<in> set (visible u w e d)"
      "secretKeyHash t' \<notin> hashKey ` set B \<and> secretKeyHash t' \<notin> set objectPrototypeKeys"
      "secretId t' = secretId t" by (auto simp: toDelete_eq)
    from t t' visible_subset [of u w e d] have "t' \<in> set (Secrets d)" "t \<in> set (Secrets d)" by auto
    with wf t'(3) have "t' = t" by (auto simp: wfIds_def intro: same_id_same_secret)
    with t'(2) k show False by simp
  qed
qed

lemma stored_zip_members:
  "length is = length A \<Longrightarrow>
   (\<forall>n \<in> set (map (\<lambda>(i, doc). stored i doc) (zip is (map h A))). \<exists>s \<in> set A. \<exists>i. n = stored i (h s))
   \<and> (\<forall>s \<in> set A. \<exists>i. stored i (h s) \<in> set (map (\<lambda>(i, doc). stored i doc) (zip is (map h A))))"
proof (induction "is" A rule: list_induct2)
  case Nil
  show ?case by simp
next
  case (Cons i "is" a A)
  then show ?case by (simp; blast)
qed

lemma insertMany_members:
  "(\<forall>n \<in> set (fst (Secret_insertMany (map h A) d)). \<exists>s \<in> set A. \<exists>i. n = stored i (h s))
   \<and> (\<forall>s \<in> set A. \<exists>i. stored i (h s) \<in> set (fst (Secret_insertMany (map h A) d)))"
  using stored_zip_members [of "[nextId d ..< nextId d + length A]" A h]
  by (simp add: Secret_insertMany_def Let_def)

lemma stored_newDoc [simp]:
  "secretKeyHash (stored i (newDoc u w e s)) = hashKey s"
  "secretValueHash (stored i (newDoc u w e s)) = hashValue s"
  "type (stored i (newDoc u w e s)) = ptype s"
  "workspace (stored i (newDoc u w e s)) = w"
  "environment (stored i (newDoc u w e s)) = e"
  "user (stored i (newDoc u w e s)) = (if ptype s = SECRET_PERSONAL then Some u else None)"
  by (simp_all add: stored_def newDoc_def)

lemma same_key_same_entry:
  "distinct (map hashKey B) \<Longrightarrow> s \<in> set B \<Longrightarrow> s' \<in> set B \<Longrightarrow> hashKey s = hashKey s' \<Longrightarrow> s = s'"
  by (meson distinct_map inj_onD)

lemma user_after_operations:
  assumes wf: "wfIds d" and t: "t \<in> set (Secrets d)" and p: "type t = SECRET_PERSONAL"
    and own: "\<forall>s \<in> set (toUpdate (visible u w e d) B). hashKey s \<in> secretKeyHash ` set (visible u w e d)"
  shows "user (applyOperations
                 (map (\<lambda>s. updateOneFor u w (storedFor (visible u w e d) s) s)
                      (toUpdate (visible u w e d) B)) t) = user t"
proof -
  let ?g = "applyOperations (map (\<lambda>s. updateOneFor u w (storedFor (visible u w e d) s) s)
                      (toUpdate (visible u w e d) B))"
  from operations_keep_identity [OF wf t, of u w e B]
  have "scopedKey (applyOperations (map (operationFor u w (visible u w e d))
                                        (toUpdate (visible u w e d) B)) t) = scopedKey t"
    by simp
  then have "scopedKey (?g t) = scopedKey t" unfolding operations_stored [OF own] .
  with p show ?thesis by (simp add: scopedKey_def)
qed

lemma value_after_operations:
  assumes wf: "wfIds d" and dB: "distinct (map hashKey B)" and s: "s \<in> set B"
    and k: "hashKey s \<in> secretKeyHash ` set (visible u w e d)"
    and own: "\<forall>s \<in> set (toUpdate (visible u w e d) B). hashKey s \<in> secretKeyHash ` set (visible u w e d)"
  shows "secretValueHash (applyOperations
                 (map (\<lambda>s. updateOneFor u w (storedFor (visible u w e d) s) s)
                      (toUpdate (visible u w e d) B)) (storedFor (visible u w e d) s)) = hashValue s"
proof -
  let ?S = "visible u w e d"
  let ?U = "toUpdate ?S B"
  let ?ops = "map (\<lambda>s. updateOneFor u w (storedFor ?S s) s) ?U"
  let ?old = "storedFor ?S s"
  from storedFor_in [OF k] have oS: "?old \<in> set ?S" and ok: "secretKeyHash ?old = hashKey s" by simp_all
  with visible_subset [of u w e d] have oD: "?old \<in> set (Secrets d)" by auto
  let ?Ui = "filter (\<lambda>s'. secretId (storedFor ?S s') = secretId ?old) ?U"
  have only: "s' = s" if "s' \<in> set ?Ui" for s'
  proof -
    from that have s': "s' \<in> set ?U" and i: "secretId (storedFor ?S s') = secretId ?old" by simp_all
    from own s' have "hashKey s' \<in> secretKeyHash ` set ?S" by blast
    from toUpdate_storedFor [OF s' this] visible_subset [of u w e d]
    have "storedFor ?S s' \<in> set (Secrets d)" "secretKeyHash (storedFor ?S s') = hashKey s'" "s' \<in> set B"
      by auto
    moreover from this(1) oD i wf have "storedFor ?S s' = ?old"
      by (auto simp: wfIds_def intro: same_id_same_secret)
    ultimately have "s' \<in> set B" and "hashKey s' = hashKey s" using ok by simp_all
    with dB s show ?thesis by (metis same_key_same_entry)
  qed
  from at_most_one [OF targets_distinct [OF wf dB own], of "secretId ?old"]
  show ?thesis
  proof
    assume e: "?Ui = []"
    then have "s \<notin> set ?U" using only by (auto simp: filter_empty_conv)
    with s k have v: "hashValue s = secretValueHash ?old" by (simp add: toUpdate_eq)
    from matching_operations [OF wf oD own] e
    have "\<forall>op \<in> set ?ops. \<not> matchesFilter op ?old" by (simp add: filter_empty_conv)
    then have "applyOperations ?ops ?old = ?old" by (rule applyOperations_no_match)
    with v show ?thesis by simp
  next
    assume "\<exists>s'. ?Ui = [s']"
    then obtain s' where e: "?Ui = [s']" ..
    then have "s' \<in> set ?Ui" by simp
    then have "s' = s" by (rule only)
    with e matching_operations [OF wf oD own]
    have "filter (\<lambda>op. matchesFilter op ?old) ?ops = [updateOneFor u w ?old s]" by simp
    then have "applyOperations ?ops ?old = applyUpdate (update (updateOneFor u w ?old s)) ?old"
      by (rule applyOperations_one_match)
    then show ?thesis by (simp add: applyUpdate_def updateOneFor_def updateDoc_def)
  qed
qed

lemma scope_after_push:
  assumes wf: "wfIds d" and dB: "distinct (map hashKey B)"
    and same: "\<forall>s \<in> set B. hashKey s \<in> secretKeyHash ` set (visible u w e d)
                 \<longrightarrow> ptype s = type (storedFor (visible u w e d) s)"
    and push: "pushSecrets f u w e B d = (Inr (), d1)"
    and s: "s \<in> set B"
  shows "hashKey s \<in> secretKeyHash ` set (visible u w e d1)
         \<and> secretValueHash (storedFor (visible u w e d1) s) = hashValue s
         \<and> type (storedFor (visible u w e d1) s) = ptype s"
proof -
  define S where "S = visible u w e d"
  define ops where "ops = map (\<lambda>s. updateOneFor u w (storedFor S s) s) (toUpdate S B)"
  define g where "g = applyOperations ops"
  define P :: "Secret \<Rightarrow> bool" where "P = (\<lambda>s. secretId s \<notin> set (toDelete S B))"
  define N where "N = fst (Secret_insertMany (map (newDoc u w e) (toAdd S B)) d)"
  define pers :: "Secret \<Rightarrow> bool" where
    "pers = (\<lambda>t. workspace t = w \<and> environment t = e \<and> type t = SECRET_PERSONAL \<and> user t = Some u)"
  define shar :: "Secret \<Rightarrow> bool" where
    "shar = (\<lambda>t. workspace t = w \<and> environment t = e \<and> type t = SECRET_SHARED)"
  define k where "k = hashKey s"
  let ?D = "Secrets d"
  let ?X = "filter P ?D"
  from wf have dX: "distinct (map secretId ?X)" by (simp add: wfIds_def distinct_map_filter)
  have own: "\<forall>s \<in> set (toUpdate (visible u w e d) B). hashKey s \<in> secretKeyHash ` set (visible u w e d)"
    by (rule pushSecrets_success(5) [OF push])
  have secs: "Secrets d1 = map g ?X @ N"
    using pushSecrets_success(1) [OF push] fold_updateOne_pointwise [OF dX, of ops]
    by (simp add: S_def ops_def g_def P_def N_def)
  have S: "S = filter pers ?D @ filter shar ?D"
    by (simp add: S_def visible_def pers_def shar_def)
  have S1: "visible u w e d1 = filter pers (map g ?X @ N) @ filter shar (map g ?X @ N)"
    by (simp add: visible_def secs pers_def shar_def)
  have inS: "t \<in> set S" if "t \<in> set ?D" "pers t \<or> shar t" for t
    using that by (auto simp: S)
  have gk: "secretKeyHash (g t) = secretKeyHash t" for t by (simp add: g_def)
  have gp: "pers (g t) = pers t" and gs: "shar (g t) = shar t" if "t \<in> set ?D" for t
  proof -
    show "shar (g t) = shar t" by (simp add: shar_def g_def)
    show "pers (g t) = pers t"
    proof (cases "type t = SECRET_PERSONAL")
      case True
      from user_after_operations [OF wf that True own] have "user (g t) = user t"
        by (simp add: g_def ops_def S_def)
      then show ?thesis by (simp add: pers_def g_def)
    next
      case False
      then show ?thesis by (simp add: pers_def g_def)
    qed
  qed
  have Nmem: "\<exists>s' \<in> set (toAdd S B). \<exists>i. n = stored i (newDoc u w e s')" if "n \<in> set N" for n
    using insertMany_members [of "newDoc u w e" "toAdd S B" d] that by (simp add: N_def)
  have Nhas: "\<exists>i. stored i (newDoc u w e s') \<in> set N" if "s' \<in> set (toAdd S B)" for s'
    using insertMany_members [of "newDoc u w e" "toAdd S B" d] that by (simp add: N_def)
  let ?F = "filter (\<lambda>t. secretKeyHash t = k) (visible u w e d1)"
  have goal: "?F \<noteq> [] \<and> secretValueHash (last ?F) = hashValue s \<and> type (last ?F) = ptype s"
  proof (cases "k \<in> secretKeyHash ` set S")
    case True
    then have kS: "hashKey s \<in> secretKeyHash ` set (visible u w e d)" by (simp add: k_def S_def)
    have noN: "secretKeyHash n \<noteq> k" if "n \<in> set N" for n
    proof -
      from Nmem [OF that] obtain s' i where s': "s' \<in> set (toAdd S B)" "n = stored i (newDoc u w e s')"
        by blast
      from s'(2) have "secretKeyHash n = hashKey s'" by (simp add: newDoc_def)
      moreover from s'(1) have "hashKey s' \<notin> secretKeyHash ` set S" by (simp add: toAdd_eq)
      ultimately show ?thesis using True by metis
    qed
    have keep: "P t" if "t \<in> set S" "secretKeyHash t = k" for t
      using kept_iff [OF wf, of t u w e B] that s by (simp add: P_def S_def k_def)
    have part: "filter (\<lambda>t. secretKeyHash t = k) (filter Q (map g ?X @ N))
                  = map g (filter (\<lambda>t. secretKeyHash t = k) (filter Q ?D))"
      if Qg: "\<And>t. t \<in> set ?D \<Longrightarrow> Q (g t) = Q t" and QS: "\<And>t. t \<in> set ?D \<Longrightarrow> Q t \<Longrightarrow> t \<in> set S"
      for Q
    proof -
      have "filter (\<lambda>t. secretKeyHash t = k) (filter Q N) = []"
        using noN by (auto simp: filter_empty_conv)
      moreover have "filter (\<lambda>t. secretKeyHash t = k) (filter Q (map g ?X))
                       = map g (filter (\<lambda>t. secretKeyHash t = k) (filter Q ?D))"
      proof -
        have "filter (\<lambda>t. secretKeyHash t = k) (filter Q (map g ?X))
                = map g (filter (\<lambda>t. Q (g t) \<and> secretKeyHash (g t) = k) ?X)"
          by (simp add: filter_map comp_def)
        also have "filter (\<lambda>t. Q (g t) \<and> secretKeyHash (g t) = k) ?X
                = filter (\<lambda>t. P t \<and> Q (g t) \<and> secretKeyHash (g t) = k) ?D"
          by (simp add: conj_commute conj_left_commute)
        also have "\<dots> = filter (\<lambda>t. Q t \<and> secretKeyHash t = k) ?D"
        proof (rule filter_cong [OF refl])
          fix t assume t: "t \<in> set ?D"
          show "(P t \<and> Q (g t) \<and> secretKeyHash (g t) = k) = (Q t \<and> secretKeyHash t = k)"
            using Qg [OF t] QS [OF t] keep [of t] by (auto simp: gk)
        qed
        also have "\<dots> = filter (\<lambda>t. secretKeyHash t = k) (filter Q ?D)"
          by (simp add: conj_commute)
        finally show ?thesis .
      qed
      ultimately show ?thesis by simp
    qed
    have "?F = map g (filter (\<lambda>t. secretKeyHash t = k) S)"
      unfolding S1 S filter_append
      using part [of pers] part [of shar] gp gs inS by simp
    moreover from True have ne: "filter (\<lambda>t. secretKeyHash t = k) S \<noteq> []"
      by (auto simp: filter_empty_conv)
    ultimately have F: "?F \<noteq> []" and l: "last ?F = g (storedFor S s)"
      by (simp_all add: last_map storedFor_def k_def)
    from value_after_operations [OF wf dB s kS own]
    have "secretValueHash (g (storedFor S s)) = hashValue s" by (simp add: g_def ops_def S_def)
    moreover from same s kS have "type (g (storedFor S s)) = ptype s" by (simp add: g_def S_def)
    ultimately show ?thesis using F l by simp
  next
    case False
    have "hashKey s \<notin> set objectPrototypeKeys"
    proof
      assume "hashKey s \<in> set objectPrototypeKeys"
      with s False have "s \<in> set (toUpdate S B)" by (intro toUpdate_inherited) (simp_all add: k_def)
      with own False show False by (simp add: S_def k_def)
    qed
    with False s have sA: "s \<in> set (toAdd S B)" by (simp add: toAdd_eq k_def)
    from Nhas [OF sA] obtain i where n: "stored i (newDoc u w e s) \<in> set N" ..
    have "pers (stored i (newDoc u w e s)) \<or> shar (stored i (newDoc u w e s))"
      by (cases "ptype s") (simp_all add: pers_def shar_def newDoc_def)
    with n have "stored i (newDoc u w e s) \<in> set ?F" by (auto simp: S1 k_def newDoc_def)
    then have F: "?F \<noteq> []" by (metis empty_iff empty_set)
    from last_in_set [OF F] have lk: "secretKeyHash (last ?F) = k" and lv: "last ?F \<in> set (visible u w e d1)"
      by simp_all
    have "last ?F \<in> set N"
    proof (rule ccontr)
      assume "last ?F \<notin> set N"
      with lv obtain t0 where t0: "t0 \<in> set ?X" "last ?F = g t0" "pers (g t0) \<or> shar (g t0)"
        by (auto simp: S1)
      then have "t0 \<in> set ?D" by simp
      with t0 gp gs inS have "t0 \<in> set S" by blast
      moreover from t0 lk have "secretKeyHash t0 = k" by (simp add: gk)
      ultimately show False using False by (metis imageI)
    qed
    from Nmem [OF this] obtain s' j where s': "s' \<in> set (toAdd S B)" "last ?F = stored j (newDoc u w e s')"
      by blast
    with lk have "hashKey s' = hashKey s" by (simp add: k_def newDoc_def)
    moreover from s' have "s' \<in> set B" by (simp add: toAdd_eq)
    ultimately have "s' = s" using dB s by (metis same_key_same_entry)
    with s' F show ?thesis by (simp add: stored_def newDoc_def)
  qed
  then have "?F \<noteq> []" by simp
  then obtain x where "x \<in> set (visible u w e d1)" "secretKeyHash x = hashKey s"
    by (auto simp: filter_empty_conv k_def)
  then have "hashKey s \<in> secretKeyHash ` set (visible u w e d1)" by (metis imageI)
  with goal show ?thesis by (simp add: storedFor_def k_def)
qed

lemma scope_keys_after_push:
  assumes wf: "wfIds d" and push: "pushSecrets f u w e B d = (Inr (), d1)"
    and t: "t \<in> set (visible u w e d1)"
  shows "secretKeyHash t \<in> hashKey ` set B \<or> secretKeyHash t \<in> set objectPrototypeKeys"
proof -
  define S where "S = visible u w e d"
  define ops where "ops = map (\<lambda>s. updateOneFor u w (storedFor S s) s) (toUpdate S B)"
  define P :: "Secret \<Rightarrow> bool" where "P = (\<lambda>s. secretId s \<notin> set (toDelete S B))"
  define N where "N = fst (Secret_insertMany (map (newDoc u w e) (toAdd S B)) d)"
  let ?X = "filter P (Secrets d)"
  from wf have dX: "distinct (map secretId ?X)" by (simp add: wfIds_def distinct_map_filter)
  have own: "\<forall>s \<in> set (toUpdate (visible u w e d) B). hashKey s \<in> secretKeyHash ` set (visible u w e d)"
    by (rule pushSecrets_success(5) [OF push])
  have secs: "Secrets d1 = map (applyOperations ops) ?X @ N"
    using pushSecrets_success(1) [OF push] fold_updateOne_pointwise [OF dX, of ops]
    by (simp add: S_def ops_def P_def N_def)
  from t have v: "t \<in> set (Secrets d1)" "workspace t = w" "environment t = e"
    "type t = SECRET_PERSONAL \<longrightarrow> user t = Some u" by (simp_all add: visible_iff)
  from v(1) secs consider "t \<in> set N" | t0 where "t0 \<in> set ?X" "t = applyOperations ops t0"
    by auto
  then show ?thesis
  proof cases
    case 1
    with insertMany_members [of "newDoc u w e" "toAdd S B" d]
    obtain s i where s: "s \<in> set (toAdd S B)" "t = stored i (newDoc u w e s)"
      by (auto simp: N_def)
    then have "secretKeyHash t = hashKey s" "s \<in> set B" by (simp_all add: newDoc_def toAdd_eq)
    then show ?thesis by (metis imageI)
  next
    case 2
    then have t0D: "t0 \<in> set (Secrets d)" and P0: "P t0" by simp_all
    have "type t0 = SECRET_PERSONAL \<longrightarrow> user t0 = Some u"
    proof
      assume p: "type t0 = SECRET_PERSONAL"
      from user_after_operations [OF wf t0D p own] 2(2) have "user t = user t0"
        by (simp add: ops_def S_def)
      with v(4) 2(2) p show "user t0 = Some u" by simp
    qed
    with v(2,3) 2(2) t0D have "t0 \<in> set (visible u w e d)" by (simp add: visible_iff)
    from kept_iff [OF wf this, of B] P0
    have "secretKeyHash t0 \<in> hashKey ` set B \<or> secretKeyHash t0 \<in> set objectPrototypeKeys"
      by (simp add: P_def S_def)
    with 2(2) show ?thesis by simp
  qed
qed

lemma second_push_classification:
  assumes wf: "wfIds d" and dB: "distinct (map hashKey B)"
    and same: "\<forall>s \<in> set B. hashKey s \<in> secretKeyHash ` set (visible u w e d)
                 \<longrightarrow> ptype s = type (storedFor (visible u w e d) s)"
    and push: "pushSecrets f u w e B d = (Inr (), d1)"
  shows "toDelete (visible u w e d1) B = []"
    and "toUpdate (visible u w e d1) B = []"
    and "toAdd (visible u w e d1) B = []"
proof -
  show "toDelete (visible u w e d1) B = []"
    using scope_keys_after_push [OF wf push] by (simp add: toDelete_eq filter_empty_conv)
  show "toUpdate (visible u w e d1) B = []"
    using scope_after_push [OF wf dB same push] by (simp add: toUpdate_eq filter_empty_conv)
  show "toAdd (visible u w e d1) B = []"
    using scope_after_push [OF wf dB same push] by (simp add: toAdd_eq filter_empty_conv)
qed

lemma insertMany_nothing: "fst (Secret_insertMany [] d) = []"
  by (simp add: Secret_insertMany_def)

lemma pushSecrets_twice:
  assumes wf: "wfIds d" and dB: "distinct (map hashKey B)"
    and same: "\<forall>s \<in> set B. hashKey s \<in> secretKeyHash ` set (visible u w e d)
                 \<longrightarrow> ptype s = type (storedFor (visible u w e d) s)"
    and push1: "pushSecrets f u w e B d = (Inr (), d1)"
    and push2: "pushSecrets f' u w e B d1 = (Inr (), d2)"
  shows "toDelete (visible u w e d1) B = [] \<and> toUpdate (visible u w e d1) B = []
         \<and> toAdd (visible u w e d1) B = []
         \<and> Secrets d2 = Secrets d1 \<and> SecretVersions d2 = SecretVersions d1
         \<and> (\<exists>p1 p2. SecretSnapshots d1 = SecretSnapshots d @ [p1]
                    \<and> SecretSnapshots d2 = SecretSnapshots d @ [p1, p2]
                    \<and> snap_secrets p2 = snap_secrets p1)"
proof -
  note c = second_push_classification [OF wf dB same push1]
  from pushSecrets_success(1) [OF push2] c have s2: "Secrets d2 = Secrets d1"
    by (simp add: insertMany_nothing)
  from pushSecrets_success(2) [OF push2] c have v2: "SecretVersions d2 = SecretVersions d1"
    by (simp add: insertMany_nothing map_idI)
  from pushSecrets_success(4) [OF push1] obtain p1 where
    p1: "SecretSnapshots d1 = SecretSnapshots d @ [p1]"
        "snap_secrets p1 = filter (\<lambda>s. workspace s = w) (Secrets d1)"
    by simp
  from pushSecrets_success(4) [OF push2] obtain p2 where
    p2: "SecretSnapshots d2 = SecretSnapshots d1 @ [p2]"
        "snap_secrets p2 = filter (\<lambda>s. workspace s = w) (Secrets d2)"
    by simp
  from p1 p2 s2 have "SecretSnapshots d1 = SecretSnapshots d @ [p1]
      \<and> SecretSnapshots d2 = SecretSnapshots d @ [p1, p2] \<and> snap_secrets p2 = snap_secrets p1"
    by simp
  then have "\<exists>p1 p2. SecretSnapshots d1 = SecretSnapshots d @ [p1]
                    \<and> SecretSnapshots d2 = SecretSnapshots d @ [p1, p2]
                    \<and> snap_secrets p2 = snap_secrets p1" by blast
  with c s2 v2 show ?thesis by simp
qed

text \<open>
  C2, amended: in a store with unique ObjectIds, let a batch with pairwise distinct key
  hashes, none of whose entries differs in type from the stored record it is compared
  with, be pushed successfully twice in succession. On the second push
  \<^verbatim>\<open>toDelete\<close>, \<^verbatim>\<open>toUpdate\<close> and \<^verbatim>\<open>toAdd\<close> are empty and the Secret rows and the
  version rows stay as the first push left them; each push appends exactly one snapshot,
  and the two snapshots have the same secret list.
\<close>

theorem repeated_push_writes_nothing:
  assumes "wfIds d" and "distinct (map hashKey secrets)"
    and "\<forall>s \<in> set secrets. hashKey s \<in> secretKeyHash ` set (visible userId workspaceId env d)
           \<longrightarrow> ptype s = type (storedFor (visible userId workspaceId env d) s)"
    and "pushSecrets f userId workspaceId env secrets d = (Inr (), d1)"
    and "pushSecrets f' userId workspaceId env secrets d1 = (Inr (), d2)"
  shows "toDelete (visible userId workspaceId env d1) secrets = []
         \<and> toUpdate (visible userId workspaceId env d1) secrets = []
         \<and> toAdd (visible userId workspaceId env d1) secrets = []
         \<and> Secrets d2 = Secrets d1 \<and> SecretVersions d2 = SecretVersions d1
         \<and> (\<exists>p1 p2. SecretSnapshots d1 = SecretSnapshots d @ [p1]
                    \<and> SecretSnapshots d2 = SecretSnapshots d @ [p1, p2]
                    \<and> snap_secrets p2 = snap_secrets p1)"
  using assms by (rule pushSecrets_twice)

text \<open>The example batch, pushed twice to the example store.\<close>

theorem repeated_push_writes_nothing_witness:
  "wfIds exampleStore \<and> distinct (map hashKey exampleBatch)
   \<and> map hashKey exampleBatch = [''k1'', ''k2'', ''k4'']
   \<and> map secretKeyHash (visible ''alice'' ''w'' ''dev'' exampleStore) = [''k2'', ''k1'']
   \<and> ptype (entry ''k1'' ''v1'' SECRET_SHARED)
       = type (storedFor (visible ''alice'' ''w'' ''dev'' exampleStore)
                 (entry ''k1'' ''v1'' SECRET_SHARED))
   \<and> ptype (entry ''k2'' ''v9'' SECRET_PERSONAL)
       = type (storedFor (visible ''alice'' ''w'' ''dev'' exampleStore)
                 (entry ''k2'' ''v9'' SECRET_PERSONAL))
   \<and> pushSecrets noFaults ''alice'' ''w'' ''dev'' exampleBatch exampleStore = (Inr (), exampleStore2)
   \<and> fst (pushSecrets noFaults ''alice'' ''w'' ''dev'' exampleBatch exampleStore2) = Inr ()
   \<and> toUpdate (visible ''alice'' ''w'' ''dev'' exampleStore2) exampleBatch = []
   \<and> Secrets (snd (pushSecrets noFaults ''alice'' ''w'' ''dev'' exampleBatch exampleStore2))
       = Secrets exampleStore2
   \<and> SecretVersions (snd (pushSecrets noFaults ''alice'' ''w'' ''dev'' exampleBatch exampleStore2))
       = SecretVersions exampleStore2"
proof -
  have a: "wfIds exampleStore" "distinct (map hashKey exampleBatch)"
    by code_simp+
  have b: "\<forall>s \<in> set exampleBatch.
         hashKey s \<in> secretKeyHash ` set (visible ''alice'' ''w'' ''dev'' exampleStore)
         \<longrightarrow> ptype s = type (storedFor (visible ''alice'' ''w'' ''dev'' exampleStore) s)"
    by (simp add: exampleBatch_def visible_def exampleStore_Secrets storedFor_def newDoc_def entry_def)
  have c: "pushSecrets noFaults ''alice'' ''w'' ''dev'' exampleBatch exampleStore
             = (Inr (), exampleStore2)"
    by code_simp
  have g: "fst (pushSecrets noFaults ''alice'' ''w'' ''dev'' exampleBatch exampleStore2) = Inr ()"
    by code_simp
  then have e: "pushSecrets noFaults ''alice'' ''w'' ''dev'' exampleBatch exampleStore2
             = (Inr (), snd (pushSecrets noFaults ''alice'' ''w'' ''dev'' exampleBatch exampleStore2))"
    by (metis prod.collapse)
  have h: "map hashKey exampleBatch = [''k1'', ''k2'', ''k4'']"
    "map secretKeyHash (visible ''alice'' ''w'' ''dev'' exampleStore) = [''k2'', ''k1'']"
    "ptype (entry ''k1'' ''v1'' SECRET_SHARED)
       = type (storedFor (visible ''alice'' ''w'' ''dev'' exampleStore)
                 (entry ''k1'' ''v1'' SECRET_SHARED))"
    "ptype (entry ''k2'' ''v9'' SECRET_PERSONAL)
       = type (storedFor (visible ''alice'' ''w'' ''dev'' exampleStore)
                 (entry ''k2'' ''v9'' SECRET_PERSONAL))"
    by (simp_all add: exampleBatch_def visible_def exampleStore_Secrets storedFor_def
          newDoc_def entry_def)
  from repeated_push_writes_nothing [OF a b c e] a c g h show ?thesis by blast
qed

text \<open>
  C2 as stated fails in two ways. A batch with the key hash \<open>k1\<close> twice under two
  values, pushed to the empty store and then again: the second push classifies the first
  entry as an update and appends a version row. A batch that asks for the stored shared
  secret \<open>k1\<close> as a personal one, pushed to the example store and then again: the type
  of the stored record is not rewritten, so the second push updates it once more
  (version 3 after version 2).
\<close>

theorem repeated_push_writes_again_counterexample:
  "fst (pushSecrets noFaults ''alice'' ''w'' ''dev''
          [entry ''k1'' ''v1'' SECRET_SHARED, entry ''k1'' ''v2'' SECRET_SHARED] emptyDb) = Inr ()
   \<and> toUpdate (visible ''alice'' ''w'' ''dev''
                 (snd (pushSecrets noFaults ''alice'' ''w'' ''dev''
                   [entry ''k1'' ''v1'' SECRET_SHARED, entry ''k1'' ''v2'' SECRET_SHARED] emptyDb)))
        [entry ''k1'' ''v1'' SECRET_SHARED, entry ''k1'' ''v2'' SECRET_SHARED]
       = [entry ''k1'' ''v1'' SECRET_SHARED]
   \<and> fst (pushSecrets noFaults ''alice'' ''w'' ''dev''
          [entry ''k1'' ''v1'' SECRET_PERSONAL, entry ''k2'' ''v2'' SECRET_PERSONAL] exampleStore)
       = Inr ()
   \<and> toUpdate (visible ''alice'' ''w'' ''dev''
                 (snd (pushSecrets noFaults ''alice'' ''w'' ''dev''
                   [entry ''k1'' ''v1'' SECRET_PERSONAL, entry ''k2'' ''v2'' SECRET_PERSONAL]
                   exampleStore)))
        [entry ''k1'' ''v1'' SECRET_PERSONAL, entry ''k2'' ''v2'' SECRET_PERSONAL]
       = [entry ''k1'' ''v1'' SECRET_PERSONAL]
   \<and> map version (Secrets (snd (pushSecrets noFaults ''alice'' ''w'' ''dev''
                   [entry ''k1'' ''v1'' SECRET_PERSONAL, entry ''k2'' ''v2'' SECRET_PERSONAL]
                   exampleStore)))
       = [2, 1]
   \<and> map version (Secrets (snd (pushSecrets noFaults ''alice'' ''w'' ''dev''
                   [entry ''k1'' ''v1'' SECRET_PERSONAL, entry ''k2'' ''v2'' SECRET_PERSONAL]
                   (snd (pushSecrets noFaults ''alice'' ''w'' ''dev''
                     [entry ''k1'' ''v1'' SECRET_PERSONAL, entry ''k2'' ''v2'' SECRET_PERSONAL]
                     exampleStore)))))
       = [3, 1]"
  by code_simp

section \<open>What an update writes\<close>









end
